theory Spec2Isabelle
  imports Main "HOL-Library.AList" "HOL-Library.Multiset"
begin

section \<open>Data model (src/app/page.tsx, lines 17-46)\<close>

text \<open>
  The TypeScript types \<^verbatim>\<open>Player\<close>, \<^verbatim>\<open>Transfer\<close>, \<^verbatim>\<open>Game\<close> and \<^verbatim>\<open>Session\<close> become records.
  Field names are the source's, with a prefix where the name is taken in HOL or in Isar
  (\<^verbatim>\<open>id\<close>, \<^verbatim>\<open>name\<close>, \<^verbatim>\<open>from\<close>, \<^verbatim>\<open>to\<close>) or is used by two types (\<^verbatim>\<open>points\<close>).
  A JavaScript string is modelled by its UTF-8 bytes: the program only compares strings for
  equality and tests them for emptiness (the empty string is the only falsy string), and
  both are preserved by the encoding.
\<close>

record player =
  p_id :: string
  p_name :: string

record transfer =
  t_id :: string
  t_from :: string
  t_to :: string
  t_points :: int

record placement_slots =
  first :: string
  second :: string
  third :: string
  fourth :: string

record game =
  g_id :: string
  u :: bool
  placements :: placement_slots
  anChot :: "transfer list"
  chay :: "transfer list"

record session =
  s_id :: string
  s_name :: string
  players :: "player list"
  games :: "game list"
  currentGameIndex :: int
  createdAt :: int

section \<open>JavaScript numbers and objects, as far as the score engine uses them\<close>

text \<open>
  The engine adds and subtracts integer amounts (the amounts written by the program are
  the constants 4, 1, 2, 3, 6, 15, 5). The only way a non-integer enters is the read of a
  missing key: \<^verbatim>\<open>points[k] -= n\<close> on a key the object does not have computes
  \<^verbatim>\<open>undefined - n\<close>, which is \<^verbatim>\<open>NaN\<close>, and stores it. So a number is an integer or
  \<^verbatim>\<open>NaN\<close>, and \<^verbatim>\<open>NaN\<close> absorbs. In the definitions of this and the next two sections
  integers are exact; the arithmetic of doubles, which rounds from \<open>2^53\<close> on, is the
  subject of the section on doubles further down. The field \<^verbatim>\<open>points\<close> of a transfer is an
  integer: the program only ever stores 4 there.
\<close>

datatype jsnum = Num int | NaN

instantiation jsnum :: "{comm_monoid_add, minus}"
begin

definition zero_jsnum :: jsnum where
  "zero_jsnum = Num 0"

fun plus_jsnum :: "jsnum \<Rightarrow> jsnum \<Rightarrow> jsnum" where
  "plus_jsnum (Num a) (Num b) = Num (a + b)"
| "plus_jsnum _ _ = NaN"

fun minus_jsnum :: "jsnum \<Rightarrow> jsnum \<Rightarrow> jsnum" where
  "minus_jsnum (Num a) (Num b) = Num (a - b)"
| "minus_jsnum _ _ = NaN"

instance
proof (standard, goal_cases)
  case (1 x y z)
  show ?case by (cases x; cases y; cases z; simp)
next
  case (2 x y)
  show ?case by (cases x; cases y; simp)
next
  case (3 x)
  show ?case by (cases x; simp add: zero_jsnum_def)
qed

end

text \<open>
  An object used as a dictionary (\<^verbatim>\<open>Record<string, number>\<close>) is an association list
  with distinct keys in insertion order: writing an existing key keeps its position,
  writing a new key appends it (\<^const>\<open>AList.update\<close>). JavaScript enumerates keys that
  are canonical array indices before the others; the player ids of this program are
  \<^verbatim>\<open>p1\<close> .. \<^verbatim>\<open>p4\<close>, and the theorems below that speak about enumeration order are
  stated up to permutation. A key that the object does not have reads as \<^verbatim>\<open>undefined\<close>:
  ids are taken not to be names of properties that every object inherits (such as
  \<^verbatim>\<open>toString\<close>).
\<close>

type_synonym 'v js_record = "(string \<times> 'v) list"

text \<open>\<^verbatim>\<open>Object.fromEntries(entries)\<close>\<close>

definition fromEntries :: "(string \<times> 'v) list \<Rightarrow> 'v js_record" where
  "fromEntries es = foldl (\<lambda>r (k, v). AList.update k v r) [] es"

text \<open>The value of \<^verbatim>\<open>r[k]\<close> read as an operand of \<^verbatim>\<open>+\<close> or \<^verbatim>\<open>-\<close>: a missing key gives
  \<^verbatim>\<open>undefined\<close>, which converts to \<^verbatim>\<open>NaN\<close>.\<close>

definition getNum :: "jsnum js_record \<Rightarrow> string \<Rightarrow> jsnum" where
  "getNum r k = (case map_of r k of None \<Rightarrow> NaN | Some v \<Rightarrow> v)"

text \<open>\<^verbatim>\<open>r[k] -= n\<close> and \<^verbatim>\<open>r[k] += n\<close>\<close>

definition subAssign :: "jsnum js_record \<Rightarrow> string \<Rightarrow> int \<Rightarrow> jsnum js_record" where
  "subAssign r k n = AList.update k (getNum r k - Num n) r"

definition addAssign :: "jsnum js_record \<Rightarrow> string \<Rightarrow> int \<Rightarrow> jsnum js_record" where
  "addAssign r k n = AList.update k (getNum r k + Num n) r"

text \<open>\<^verbatim>\<open>new Set(xs)\<close>: the distinct elements of \<open>xs\<close> in order of first occurrence.\<close>

definition newSet :: "'a list \<Rightarrow> 'a list" where
  "newSet xs = foldl (\<lambda>s x. if x \<in> set s then s else s @ [x]) [] xs"

section \<open>The messages of the program\<close>

text \<open>The string literals of the source, as UTF-8 bytes. In the order of the definitions
  they are the spec's "invalid transfer", "no self-win player chosen", "winner required to
  score burns", "winner cannot be burned", "missing second place", "missing third place",
  "ranking incomplete" and the label "none yet".\<close>

definition warn_invalid_transfer :: string where
  "warn_invalid_transfer = ''Chuy'' @ [CHR 0xE1, CHR 0xBB, CHR 0x83] @ ''n '' @ [CHR 0xC4, CHR 0x91]
     @ ''i'' @ [CHR 0xE1, CHR 0xBB, CHR 0x83] @ ''m ch'' @ [CHR 0xC6, CHR 0xB0] @ ''a h''
     @ [CHR 0xE1, CHR 0xBB, CHR 0xA3] @ ''p l'' @ [CHR 0xE1, CHR 0xBB, CHR 0x87]"

definition warn_no_u_player :: string where
  "warn_no_u_player = ''Ch'' @ [CHR 0xC6, CHR 0xB0] @ ''a ch'' @ [CHR 0xE1, CHR 0xBB, CHR 0x8D]
     @ ''n ng'' @ [CHR 0xC6, CHR 0xB0, CHR 0xE1, CHR 0xBB, CHR 0x9D] @ ''i '' @ [CHR 0xC3, CHR 0x99]"

definition warn_need_winner :: string where
  "warn_need_winner = ''C'' @ [CHR 0xE1, CHR 0xBA, CHR 0xA7] @ ''n ch'' @ [CHR 0xE1, CHR 0xBB, CHR 0x8D]
     @ ''n ng'' @ [CHR 0xC6, CHR 0xB0, CHR 0xE1, CHR 0xBB, CHR 0x9D] @ ''i th''
     @ [CHR 0xE1, CHR 0xBA, CHR 0xAF] @ ''ng '' @ [CHR 0xC4, CHR 0x91, CHR 0xE1, CHR 0xBB, CHR 0x83]
     @ '' t'' @ [CHR 0xC3, CHR 0xAD] @ ''nh ch'' @ [CHR 0xC3, CHR 0xA1] @ ''y''"

definition warn_winner_chay :: string where
  "warn_winner_chay = ''Ng'' @ [CHR 0xC6, CHR 0xB0, CHR 0xE1, CHR 0xBB, CHR 0x9D] @ ''i th''
     @ [CHR 0xE1, CHR 0xBA, CHR 0xAF] @ ''ng kh'' @ [CHR 0xC3, CHR 0xB4] @ ''ng th''
     @ [CHR 0xE1, CHR 0xBB, CHR 0x83] @ '' b'' @ [CHR 0xE1, CHR 0xBB, CHR 0x8B] @ '' ch''
     @ [CHR 0xC3, CHR 0xA1] @ ''y''"

definition warn_missing_second :: string where
  "warn_missing_second = ''Thi'' @ [CHR 0xE1, CHR 0xBA, CHR 0xBF] @ ''u ng''
     @ [CHR 0xC6, CHR 0xB0, CHR 0xE1, CHR 0xBB, CHR 0x9D] @ ''i v'' @ [CHR 0xE1, CHR 0xBB, CHR 0x81]
     @ '' nh'' @ [CHR 0xC3, CHR 0xAC]"

definition warn_missing_third :: string where
  "warn_missing_third = ''Thi'' @ [CHR 0xE1, CHR 0xBA, CHR 0xBF] @ ''u ng''
     @ [CHR 0xC6, CHR 0xB0, CHR 0xE1, CHR 0xBB, CHR 0x9D] @ ''i v'' @ [CHR 0xE1, CHR 0xBB, CHR 0x81]
     @ '' ba''"

definition warn_ranking :: string where
  "warn_ranking = ''Ch'' @ [CHR 0xC6, CHR 0xB0] @ ''a '' @ [CHR 0xC4, CHR 0x91, CHR 0xE1, CHR 0xBB, CHR 0xA7]
     @ '' x'' @ [CHR 0xE1, CHR 0xBA, CHR 0xBF] @ ''p h'' @ [CHR 0xE1, CHR 0xBA, CHR 0xA1] @ ''ng 1-4''"

definition none_yet :: string where
  "none_yet = ''Ch'' @ [CHR 0xC6, CHR 0xB0] @ ''a c'' @ [CHR 0xC3, CHR 0xB3]"

section \<open>The score engine: computeGamePoints (lines 122-212)\<close>

text \<open>The two locals \<^verbatim>\<open>points\<close> and \<^verbatim>\<open>warnings\<close> that the function mutates are passed
  as a pair.\<close>

type_synonym score_state = "jsnum js_record \<times> string list"

text \<open>Lines 123-125: one entry per player, value 0.\<close>

definition initPoints :: "player list \<Rightarrow> jsnum js_record" where
  "initPoints ps = fromEntries (map (\<lambda>p. (p_id p, Num 0)) ps)"

text \<open>Line 129: the test of the closure \<^verbatim>\<open>applyTransfer\<close>.\<close>

definition invalidTransfer :: "transfer \<Rightarrow> bool" where
  "invalidTransfer t = (t_from t = [] \<or> t_to t = [] \<or> t_from t = t_to t)"

text \<open>Lines 133-134.\<close>

definition movePoints :: "jsnum js_record \<Rightarrow> transfer \<Rightarrow> jsnum js_record" where
  "movePoints pts t = addAssign (subAssign pts (t_from t) (t_points t)) (t_to t) (t_points t)"

text \<open>Lines 128-135: the closure \<^verbatim>\<open>applyTransfer\<close>.\<close>

definition applyTransfer :: "score_state \<Rightarrow> transfer \<Rightarrow> score_state" where
  "applyTransfer st t =
     (case st of (pts, ws) \<Rightarrow>
        if invalidTransfer t then (pts, ws @ [warn_invalid_transfer])
        else (movePoints pts t, ws))"

text \<open>Lines 138-145: the branch \<^verbatim>\<open>game.u\<close>.\<close>

definition scoreU :: "game \<Rightarrow> player list \<Rightarrow> score_state" where
  "scoreU g ps =
     (let winner = first (placements g) in
      if winner = [] then (initPoints ps, [warn_no_u_player])
      else (foldl (\<lambda>r p. AList.update (p_id p) (Num (if p_id p = winner then 15 else - 5)) r)
              (initPoints ps) ps, []))"

text \<open>Line 148: the set of the non-empty \<^verbatim>\<open>from\<close> fields of the burn entries.\<close>

definition chaySet :: "game \<Rightarrow> string list" where
  "chaySet g = newSet (filter (\<lambda>i. i \<noteq> []) (map t_from (chay g)))"

text \<open>Line 149.\<close>

definition hasChay :: "game \<Rightarrow> bool" where
  "hasChay g = (length (chaySet g) > 0)"

text \<open>Lines 157-163: the body of \<^verbatim>\<open>chaySet.forEach\<close>.\<close>

definition chayStep :: "string \<Rightarrow> jsnum js_record \<Rightarrow> string \<Rightarrow> jsnum js_record" where
  "chayStep winner r playerId =
     (if playerId = winner then r else addAssign (subAssign r playerId 4) winner 4)"

text \<open>Line 177.\<close>

definition nonChay :: "game \<Rightarrow> player list \<Rightarrow> string list" where
  "nonChay g ps = filter (\<lambda>i. i \<notin> set (chaySet g)) (map p_id ps)"

text \<open>Lines 152-187: the branch \<^verbatim>\<open>hasChay\<close>.\<close>

definition scoreChay :: "game \<Rightarrow> player list \<Rightarrow> score_state" where
  "scoreChay g ps =
     (let winner = first (placements g); cs = chaySet g in
      if winner = [] then (initPoints ps, [warn_need_winner])
      else if winner \<in> set cs then (initPoints ps, [warn_winner_chay])
      else
        (let pts1 = foldl (chayStep winner) (initPoints ps) cs;
             sec = second (placements g);
             thi = third (placements g);
             pts2 = (if sec \<noteq> [] \<and> sec \<notin> set cs \<and> sec \<noteq> winner
                     then addAssign (subAssign pts1 sec 1) winner 1 else pts1);
             pts3 = (if thi \<noteq> [] \<and> thi \<notin> set cs \<and> thi \<noteq> winner \<and> thi \<noteq> sec
                     then addAssign (subAssign pts2 thi 2) winner 2 else pts2);
             n = length (nonChay g ps);
             ws1 = (if n \<ge> 2 \<and> (sec = [] \<or> sec = winner \<or> sec \<in> set cs)
                    then [warn_missing_second] else []);
             ws2 = (if n \<ge> 3 \<and> (thi = [] \<or> thi = winner \<or> thi = sec \<or> thi \<in> set cs)
                    then [warn_missing_third] else [])
         in (pts3, ws1 @ ws2)))"

text \<open>Lines 189-203: the ranking branch.\<close>

definition scoreRanking :: "game \<Rightarrow> player list \<Rightarrow> score_state" where
  "scoreRanking g ps =
     (let pl = placements g;
          picks = [first pl, second pl, third pl, fourth pl];
          unique = newSet (filter (\<lambda>i. i \<noteq> []) picks) in
      if length unique \<noteq> 4 then (initPoints ps, [warn_ranking])
      else (subAssign (subAssign (subAssign (addAssign (initPoints ps) (first pl) 6)
              (second pl) 1) (third pl) 2) (fourth pl) 3, []))"

text \<open>Lines 137-205: the state after the mode-specific computation, before the manual
  transfers.\<close>

definition modeScore :: "game \<Rightarrow> player list \<Rightarrow> score_state" where
  "modeScore g ps =
     (if u g then scoreU g ps
      else if hasChay g then scoreChay g ps
      else scoreRanking g ps)"

record score_result =
  points :: "jsnum js_record"
  total :: jsnum
  warnings :: "string list"

text \<open>Lines 207-211: the manual transfers in list order, then the total.\<close>

definition computeGamePoints :: "game \<Rightarrow> player list \<Rightarrow> score_result" where
  "computeGamePoints g ps =
     (case foldl applyTransfer (modeScore g ps) (anChot g) of (pts, ws) \<Rightarrow>
        \<lparr>points = pts, total = foldl (+) (Num 0) (map snd pts), warnings = ws\<rparr>)"

section \<open>The score engine on doubles\<close>

text \<open>
  The definitions above compute with exact integers. A JavaScript number is an IEEE 754
  double: an integer of magnitude up to \<open>2^53\<close> is a double, and a sum or difference of two
  doubles is the double nearest to the exact result (a tie goes to the even significand),
  or an infinity from \<open>2^1024\<close> on. So the exact engine is the program as long as no number
  leaves the range from \<open>-2^53\<close> to \<open>2^53\<close>. For the property of the total over all
  amounts, the same code is given here with the arithmetic of doubles. All numbers that
  arise are integers, infinities or \<^verbatim>\<open>NaN\<close> (the two zeros are not distinguished: the
  program does not tell them apart).
\<close>

datatype dbl = Fin int | PInf | NInf | DNaN

text \<open>The number of binary digits of a positive integer.\<close>

function bitLength :: "int \<Rightarrow> nat" where
  "bitLength n = (if n \<le> 0 then 0 else Suc (bitLength (n div 2)))"
  by pat_completeness auto
termination
  by (relation "measure nat") auto

text \<open>The double nearest to an integer: the integer itself up to magnitude \<open>2^53\<close>;
  beyond it the 53 leading binary digits, rounded to nearest with ties to even; an
  infinity when the rounded magnitude reaches \<open>2^1024\<close>.\<close>

definition fl :: "int \<Rightarrow> dbl" where
  "fl x =
     (if \<bar>x\<bar> \<le> 2 ^ 53 then Fin x
      else
        (let a = \<bar>x\<bar>;
             e = bitLength a - 53;
             q = a div 2 ^ e;
             r = a mod 2 ^ e;
             q' = (if 2 * r > 2 ^ e \<or> (2 * r = 2 ^ e \<and> odd q) then q + 1 else q);
             m = q' * 2 ^ e
         in if m \<ge> 2 ^ 1024 then (if x < 0 then NInf else PInf)
            else Fin (if x < 0 then - m else m)))"

text \<open>Addition, negation and subtraction of doubles.\<close>

fun dadd :: "dbl \<Rightarrow> dbl \<Rightarrow> dbl" where
  "dadd (Fin a) (Fin b) = fl (a + b)"
| "dadd DNaN _ = DNaN"
| "dadd _ DNaN = DNaN"
| "dadd PInf NInf = DNaN"
| "dadd NInf PInf = DNaN"
| "dadd PInf _ = PInf"
| "dadd _ PInf = PInf"
| "dadd NInf _ = NInf"
| "dadd _ NInf = NInf"

fun dneg :: "dbl \<Rightarrow> dbl" where
  "dneg (Fin a) = Fin (- a)"
| "dneg PInf = NInf"
| "dneg NInf = PInf"
| "dneg DNaN = DNaN"

definition dsub :: "dbl \<Rightarrow> dbl \<Rightarrow> dbl" where
  "dsub a b = dadd a (dneg b)"

text \<open>\<^verbatim>\<open>r[k]\<close> as an operand, \<^verbatim>\<open>r[k] -= n\<close> and \<^verbatim>\<open>r[k] += n\<close>.\<close>

definition getDbl :: "dbl js_record \<Rightarrow> string \<Rightarrow> dbl" where
  "getDbl r k = (case map_of r k of None \<Rightarrow> DNaN | Some v \<Rightarrow> v)"

definition subAssignD :: "dbl js_record \<Rightarrow> string \<Rightarrow> dbl \<Rightarrow> dbl js_record" where
  "subAssignD r k n = AList.update k (dsub (getDbl r k) n) r"

definition addAssignD :: "dbl js_record \<Rightarrow> string \<Rightarrow> dbl \<Rightarrow> dbl js_record" where
  "addAssignD r k n = AList.update k (dadd (getDbl r k) n) r"

type_synonym score_state_d = "dbl js_record \<times> string list"

text \<open>Lines 123-125.\<close>

definition initPointsD :: "player list \<Rightarrow> dbl js_record" where
  "initPointsD ps = fromEntries (map (\<lambda>p. (p_id p, Fin 0)) ps)"

text \<open>Lines 133-134. The amount of a transfer is the double that its integer denotes.\<close>

definition movePointsD :: "dbl js_record \<Rightarrow> transfer \<Rightarrow> dbl js_record" where
  "movePointsD pts t =
     addAssignD (subAssignD pts (t_from t) (fl (t_points t))) (t_to t) (fl (t_points t))"

text \<open>Lines 128-135.\<close>

definition applyTransferD :: "score_state_d \<Rightarrow> transfer \<Rightarrow> score_state_d" where
  "applyTransferD st t =
     (case st of (pts, ws) \<Rightarrow>
        if invalidTransfer t then (pts, ws @ [warn_invalid_transfer])
        else (movePointsD pts t, ws))"

text \<open>Lines 138-145.\<close>

definition scoreUD :: "game \<Rightarrow> player list \<Rightarrow> score_state_d" where
  "scoreUD g ps =
     (let winner = first (placements g) in
      if winner = [] then (initPointsD ps, [warn_no_u_player])
      else (foldl (\<lambda>r p. AList.update (p_id p) (Fin (if p_id p = winner then 15 else - 5)) r)
              (initPointsD ps) ps, []))"

text \<open>Lines 157-163.\<close>

definition chayStepD :: "string \<Rightarrow> dbl js_record \<Rightarrow> string \<Rightarrow> dbl js_record" where
  "chayStepD winner r playerId =
     (if playerId = winner then r
      else addAssignD (subAssignD r playerId (Fin 4)) winner (Fin 4))"

text \<open>Lines 152-187.\<close>

definition scoreChayD :: "game \<Rightarrow> player list \<Rightarrow> score_state_d" where
  "scoreChayD g ps =
     (let winner = first (placements g); cs = chaySet g in
      if winner = [] then (initPointsD ps, [warn_need_winner])
      else if winner \<in> set cs then (initPointsD ps, [warn_winner_chay])
      else
        (let pts1 = foldl (chayStepD winner) (initPointsD ps) cs;
             sec = second (placements g);
             thi = third (placements g);
             pts2 = (if sec \<noteq> [] \<and> sec \<notin> set cs \<and> sec \<noteq> winner
                     then addAssignD (subAssignD pts1 sec (Fin 1)) winner (Fin 1) else pts1);
             pts3 = (if thi \<noteq> [] \<and> thi \<notin> set cs \<and> thi \<noteq> winner \<and> thi \<noteq> sec
                     then addAssignD (subAssignD pts2 thi (Fin 2)) winner (Fin 2) else pts2);
             n = length (nonChay g ps);
             ws1 = (if n \<ge> 2 \<and> (sec = [] \<or> sec = winner \<or> sec \<in> set cs)
                    then [warn_missing_second] else []);
             ws2 = (if n \<ge> 3 \<and> (thi = [] \<or> thi = winner \<or> thi = sec \<or> thi \<in> set cs)
                    then [warn_missing_third] else [])
         in (pts3, ws1 @ ws2)))"

text \<open>Lines 189-203.\<close>

definition scoreRankingD :: "game \<Rightarrow> player list \<Rightarrow> score_state_d" where
  "scoreRankingD g ps =
     (let pl = placements g;
          picks = [first pl, second pl, third pl, fourth pl];
          unique = newSet (filter (\<lambda>i. i \<noteq> []) picks) in
      if length unique \<noteq> 4 then (initPointsD ps, [warn_ranking])
      else (subAssignD (subAssignD (subAssignD (addAssignD (initPointsD ps) (first pl) (Fin 6))
              (second pl) (Fin 1)) (third pl) (Fin 2)) (fourth pl) (Fin 3), []))"

text \<open>Lines 137-205.\<close>

definition modeScoreD :: "game \<Rightarrow> player list \<Rightarrow> score_state_d" where
  "modeScoreD g ps =
     (if u g then scoreUD g ps
      else if hasChay g then scoreChayD g ps
      else scoreRankingD g ps)"

record score_result_d =
  points_d :: "dbl js_record"
  total_d :: dbl
  warnings_d :: "string list"

text \<open>Lines 122-212, with line 209 adding doubles from the left.\<close>

definition computeGamePointsD :: "game \<Rightarrow> player list \<Rightarrow> score_result_d" where
  "computeGamePointsD g ps =
     (case foldl applyTransferD (modeScoreD g ps) (anChot g) of (pts, ws) \<Rightarrow>
        \<lparr>points_d = pts, total_d = foldl dadd (Fin 0) (map snd pts), warnings_d = ws\<rparr>)"

section \<open>The session aggregator (lines 447-506, 320-330)\<close>

text \<open>The hooks read \<^verbatim>\<open>activeSession\<close>, which is a session or \<^verbatim>\<open>null\<close>.\<close>





text \<open>The field \<^verbatim>\<open>count\<close> of the source is \<open>count_top\<close> here.\<close>

record top_stat =
  names :: "string list"
  count_top :: int

text \<open>Line 328: \<^verbatim>\<open>.filter(Boolean) as string[]\<close> drops \<^verbatim>\<open>undefined\<close> and the empty
  string.\<close>

definition filterBoolean :: "string option list \<Rightarrow> string list" where
  "filterBoolean xs = map the (filter (\<lambda>x. x \<noteq> None \<and> x \<noteq> Some []) xs)"

text \<open>Lines 320-330. The counts are integers: they start at 0 and are incremented.\<close>

definition getTopStat :: "player list \<Rightarrow> int js_record \<Rightarrow> top_stat" where
  "getTopStat ps counts =
     (let mx = foldl max 0 (map snd counts) in
      if mx = 0 then \<lparr>names = [none_yet], count_top = 0\<rparr>
      else
        (let ids = filter (\<lambda>i. map_of counts i = Some mx) (map fst counts);
             ns = filterBoolean
                    (map (\<lambda>i. map_option p_name (find (\<lambda>p. p_id p = i) ps)) ids)
         in \<lparr>names = ns, count_top = mx\<rparr>))"

text \<open>Lines 491-493 and 496-498: the body of both inner loops.\<close>

definition countFrom :: "int js_record \<Rightarrow> transfer \<Rightarrow> int js_record" where
  "countFrom counts t =
     (if t_from t \<noteq> []
      then AList.update (t_from t)
             ((case map_of counts (t_from t) of None \<Rightarrow> 0 | Some c \<Rightarrow> c) + 1) counts
      else counts)"

record fun_stats =
  mostChay :: top_stat
  mostAnChot :: top_stat

text \<open>Lines 489-500: the loop over the games, on the pair of the two count objects.\<close>

definition countGames :: "player list \<Rightarrow> game list \<Rightarrow> int js_record \<times> int js_record" where
  "countGames ps gs =
     foldl (\<lambda>cs g. case cs of (chayCounts, anChotCounts) \<Rightarrow>
              (foldl countFrom chayCounts (chay g), foldl countFrom anChotCounts (anChot g)))
       (fromEntries (map (\<lambda>p. (p_id p, 0)) ps), fromEntries (map (\<lambda>p. (p_id p, 0)) ps))
       gs"

text \<open>Lines 475-506.\<close>

definition funStats :: "session option \<Rightarrow> fun_stats" where
  "funStats a =
     (case a of
        None \<Rightarrow> \<lparr>mostChay = \<lparr>names = [none_yet], count_top = 0\<rparr>,
                 mostAnChot = \<lparr>names = [none_yet], count_top = 0\<rparr>\<rparr>
      | Some s \<Rightarrow>
          (case countGames (players s) (games s) of (chayCounts, anChotCounts) \<Rightarrow>
             \<lparr>mostChay = getTopStat (players s) chayCounts,
              mostAnChot = getTopStat (players s) anChotCounts\<rparr>))"

section \<open>Notions of the specification\<close>

text \<open>The player list of a session: four players, told apart by their ids.\<close>

definition fourPlayers :: "player list \<Rightarrow> bool" where
  "fourPlayers ps = (length ps = 4 \<and> distinct (map p_id ps))"

text \<open>A slot or an endpoint holds a valid player id or is empty.\<close>

definition validId :: "player list \<Rightarrow> string \<Rightarrow> bool" where
  "validId ps i = (i = [] \<or> i \<in> set (map p_id ps))"

text \<open>Every ranking slot and every endpoint of a burn entry or of a manual transfer is a
  valid player id or empty.\<close>

definition roundIdsValid :: "game \<Rightarrow> player list \<Rightarrow> bool" where
  "roundIdsValid g ps =
     (validId ps (first (placements g)) \<and> validId ps (second (placements g))
      \<and> validId ps (third (placements g)) \<and> validId ps (fourth (placements g))
      \<and> list_all (\<lambda>t. validId ps (t_from t) \<and> validId ps (t_to t)) (chay g)
      \<and> list_all (\<lambda>t. validId ps (t_from t) \<and> validId ps (t_to t)) (anChot g))"

text \<open>The burned set: the distinct players named as \<^verbatim>\<open>from\<close> by a burn entry.\<close>

definition burned :: "game \<Rightarrow> string set" where
  "burned g = set (filter (\<lambda>i. i \<noteq> []) (map t_from (chay g)))"

text \<open>The second-place and third-place bonuses are due.\<close>

definition secondPays :: "game \<Rightarrow> bool" where
  "secondPays g =
     (second (placements g) \<noteq> [] \<and> second (placements g) \<noteq> first (placements g)
      \<and> second (placements g) \<notin> burned g)"

definition thirdPays :: "game \<Rightarrow> bool" where
  "thirdPays g =
     (third (placements g) \<noteq> [] \<and> third (placements g) \<noteq> first (placements g)
      \<and> third (placements g) \<noteq> second (placements g) \<and> third (placements g) \<notin> burned g)"

text \<open>The burn tariff in the spec's words: every burned player pays 4 to the winner, the
  second pays 1 and the third pays 2 when their bonus is due.\<close>

definition chayDelta :: "game \<Rightarrow> string \<Rightarrow> int" where
  "chayDelta g q =
     (if q = first (placements g)
      then 4 * int (card (burned g)) + (if secondPays g then 1 else 0)
             + (if thirdPays g then 2 else 0)
      else 0)
     - (if q \<in> burned g then 4 else 0)
     - (if secondPays g \<and> q = second (placements g) then 1 else 0)
     - (if thirdPays g \<and> q = third (placements g) then 2 else 0)"

text \<open>The condition of the warning "missing second place" in the spec's words: at least
  two players that are neither burned nor the winner, and slot second empty, equal to the
  winner or burned.\<close>

definition specMissingSecond :: "game \<Rightarrow> player list \<Rightarrow> bool" where
  "specMissingSecond g ps =
     (length (filter (\<lambda>i. i \<notin> burned g \<and> i \<noteq> first (placements g)) (map p_id ps)) \<ge> 2
      \<and> (second (placements g) = [] \<or> second (placements g) = first (placements g)
           \<or> second (placements g) \<in> burned g))"

text \<open>Slot second, and slot third, is missing or invalid.\<close>

definition secondMissing :: "game \<Rightarrow> bool" where
  "secondMissing g =
     (second (placements g) = [] \<or> second (placements g) = first (placements g)
      \<or> second (placements g) \<in> burned g)"

definition thirdMissing :: "game \<Rightarrow> bool" where
  "thirdMissing g =
     (third (placements g) = [] \<or> third (placements g) = first (placements g)
      \<or> third (placements g) = second (placements g) \<or> third (placements g) \<in> burned g)"

text \<open>The number of players that are not burned (the winner is one of them).\<close>

definition notBurnedCount :: "game \<Rightarrow> player list \<Rightarrow> nat" where
  "notBurnedCount g ps = length (filter (\<lambda>i. i \<notin> burned g) (map p_id ps))"

text \<open>The four ranking slots are filled with four distinct ids.\<close>

definition rankingComplete :: "game \<Rightarrow> bool" where
  "rankingComplete g =
     (first (placements g) \<noteq> [] \<and> second (placements g) \<noteq> [] \<and> third (placements g) \<noteq> []
      \<and> fourth (placements g) \<noteq> []
      \<and> distinct [first (placements g), second (placements g), third (placements g),
                  fourth (placements g)])"

text \<open>How many entries of a list of transfers name the id as \<^verbatim>\<open>from\<close>.\<close>

definition fromCount :: "transfer list \<Rightarrow> string \<Rightarrow> int" where
  "fromCount ts i = int (length (filter (\<lambda>t. t_from t = i) ts))"

text \<open>The "top" statistic in the spec's words: the maximum count over the players, every
  player tied for it, and the label "none yet" with count 0 when the maximum is 0.\<close>

definition topOf :: "player list \<Rightarrow> transfer list \<Rightarrow> top_stat" where
  "topOf ps ts =
     (let m = Max (set (0 # map (\<lambda>p. fromCount ts (p_id p)) ps)) in
      if m = 0 then \<lparr>names = [none_yet], count_top = 0\<rparr>
      else \<lparr>names = map p_name (filter (\<lambda>p. fromCount ts (p_id p) = m) ps), count_top = m\<rparr>)"

text \<open>The sum of the absolute amounts of the manual transfers of a round.\<close>

definition manualVolume :: "game \<Rightarrow> int" where
  "manualVolume g = sum_list (map (\<lambda>t. \<bar>t_points t\<bar>) (anChot g))"

text \<open>The object with the keys \<open>ks\<close> that holds the integer \<open>f k\<close> at key \<open>k\<close>.\<close>

definition finRecord :: "(string \<Rightarrow> int) \<Rightarrow> string list \<Rightarrow> dbl js_record" where
  "finRecord f ks = map (\<lambda>k. (k, Fin (f k))) ks"

text \<open>A points object over the keys \<open>ks\<close> that holds integers of magnitude at most \<open>b\<close>
  whose sum is \<open>s\<close>.\<close>

definition finState :: "string list \<Rightarrow> dbl js_record \<Rightarrow> int \<Rightarrow> int \<Rightarrow> bool" where
  "finState ks r b s =
     (\<exists>f. r = finRecord f ks \<and> (\<forall>k \<in> set ks. \<bar>f k\<bar> \<le> b) \<and> sum_list (map f ks) = s)"

text \<open>A points object over the key set \<open>K\<close> whose values add up to 0.\<close>

definition zeroSum :: "string set \<Rightarrow> jsnum js_record \<Rightarrow> bool" where
  "zeroSum K r = (fst ` set r = K \<and> sum_list (map snd r) = Num 0)"

section \<open>Example inputs\<close>

text \<open>Four players with the ids that \<^verbatim>\<open>createPlayers\<close> gives, and rounds over them.\<close>

definition mkPlayer :: "string \<Rightarrow> player" where
  "mkPlayer i = \<lparr>p_id = i, p_name = ''Player '' @ i\<rparr>"

definition players4 :: "player list" where
  "players4 = [mkPlayer ''p1'', mkPlayer ''p2'', mkPlayer ''p3'', mkPlayer ''p4'']"

definition mkTransfer :: "string \<Rightarrow> string \<Rightarrow> int \<Rightarrow> transfer" where
  "mkTransfer a b n = \<lparr>t_id = ''t'', t_from = a, t_to = b, t_points = n\<rparr>"

definition mkGame ::
  "bool \<Rightarrow> string \<Rightarrow> string \<Rightarrow> string \<Rightarrow> string \<Rightarrow> transfer list \<Rightarrow> transfer list \<Rightarrow> game" where
  "mkGame b s1 s2 s3 s4 ac ch =
     \<lparr>g_id = ''g'', u = b,
      placements = \<lparr>first = s1, second = s2, third = s3, fourth = s4\<rparr>,
      anChot = ac, chay = ch\<rparr>"

definition mkSession :: "player list \<Rightarrow> game list \<Rightarrow> session" where
  "mkSession ps gs =
     \<lparr>s_id = ''s'', s_name = ''Session 01'', players = ps, games = gs,
      currentGameIndex = 0, createdAt = 0\<rparr>"

section \<open>Objects, sets and sums\<close>

lemma getNum_update: "getNum (AList.update k v r) q = (if q = k then v else getNum r q)"
  by (simp add: getNum_def update_conv')

lemma getNum_subAssign: "getNum (subAssign r k n) q = (if q = k then getNum r k - Num n else getNum r q)"
  by (simp add: subAssign_def getNum_update)

lemma getNum_addAssign: "getNum (addAssign r k n) q = (if q = k then getNum r k + Num n else getNum r q)"
  by (simp add: addAssign_def getNum_update)

lemma keys_subAssign: "fst ` set (subAssign r k n) = insert k (fst ` set r)"
  by (simp add: subAssign_def dom_update)

lemma keys_addAssign: "fst ` set (addAssign r k n) = insert k (fst ` set r)"
  by (simp add: addAssign_def dom_update)

lemma newSet_aux:
  "set (foldl (\<lambda>s x. if x \<in> set s then s else s @ [x]) acc xs) = set acc \<union> set xs
   \<and> (distinct acc \<longrightarrow> distinct (foldl (\<lambda>s x. if x \<in> set s then s else s @ [x]) acc xs))"
  by (induction xs arbitrary: acc) auto

lemma set_newSet: "set (newSet xs) = set xs"
  using newSet_aux [of "[]" xs] by (simp add: newSet_def)

lemma distinct_newSet: "distinct (newSet xs)"
  using newSet_aux [of "[]" xs] by (simp add: newSet_def)

lemma length_newSet: "length (newSet xs) = card (set xs)"
  using distinct_card [OF distinct_newSet, of xs] by (simp add: set_newSet)

lemma fromEntries_aux:
  "map_of (foldl (\<lambda>r (k, v). AList.update k v r) acc (map (\<lambda>p. (f p, c)) ps)) q
     = (if q \<in> f ` set ps then Some c else map_of acc q)"
  by (induction ps arbitrary: acc) (auto simp: update_conv')

lemma fromEntries_keys_aux:
  "distinct (map fst acc) \<Longrightarrow>
   distinct (map fst (foldl (\<lambda>r (k, v). AList.update k v r) acc es))
   \<and> fst ` set (foldl (\<lambda>r (k, v). AList.update k v r) acc es) = fst ` set acc \<union> fst ` set es"
proof (induction es arbitrary: acc)
  case Nil
  then show ?case by simp
next
  case (Cons e es)
  obtain k v where e: "e = (k, v)" by (cases e)
  have d: "distinct (map fst (AList.update k v acc))"
    using Cons.prems by (rule distinct_update)
  show ?case
    using Cons.IH [OF d] e by (simp add: dom_update)
qed

lemma fromEntries_distinct_aux:
  "distinct (map fst acc @ map fst es) \<Longrightarrow>
   foldl (\<lambda>r (k, v). AList.update k v r) acc es = acc @ es"
proof (induction es arbitrary: acc)
  case Nil then show ?case by simp
next
  case (Cons e es)
  obtain k v where e: "e = (k, v)" by (cases e)
  have "k \<notin> fst ` set acc" using Cons.prems e by auto
  then have up: "AList.update k v acc = acc @ [(k, v)]"
    by (induction acc) auto
  have "distinct (map fst (acc @ [(k, v)]) @ map fst es)" using Cons.prems e by auto
  from Cons.IH [OF this] show ?case using e up by simp
qed

lemma fromEntries_distinct:
  "distinct (map fst es) \<Longrightarrow> fromEntries es = es"
  using fromEntries_distinct_aux [of "[]" es] by (simp add: fromEntries_def)

lemma map_of_initPoints: "map_of (initPoints ps) q = (if q \<in> p_id ` set ps then Some (Num 0) else None)"
  using fromEntries_aux [of "[]" p_id "Num 0" ps q] by (simp add: initPoints_def fromEntries_def)

lemma getNum_initPoints: "q \<in> p_id ` set ps \<Longrightarrow> getNum (initPoints ps) q = Num 0"
  by (simp add: getNum_def map_of_initPoints)

lemma distinct_initPoints: "distinct (map fst (initPoints ps))"
  using fromEntries_keys_aux [of "[]" "map (\<lambda>p. (p_id p, Num 0)) ps"]
  by (simp add: initPoints_def fromEntries_def)

lemma keys_initPoints: "fst ` set (initPoints ps) = p_id ` set ps"
  using fromEntries_keys_aux [of "[]" "map (\<lambda>p. (p_id p, Num 0)) ps"]
  by (simp add: initPoints_def fromEntries_def image_image)


lemma foldl_plus_jsnum: "foldl (+) a xs = a + sum_list (xs :: jsnum list)"
  by (induction xs arbitrary: a) (simp_all add: add.assoc)

lemma total_sum_list: "foldl (+) (Num 0) xs = sum_list xs"
  using foldl_plus_jsnum [of "Num 0" xs] by (simp add: zero_jsnum_def [symmetric])

lemma sum_list_Num: "sum_list (map (\<lambda>x. Num (f x)) xs) = Num (sum_list (map f xs))"
  by (induction xs) (simp_all add: zero_jsnum_def)

lemma sum_Num_member: "sum_list xs = Num s \<Longrightarrow> x \<in> set xs \<Longrightarrow> \<exists>n. x = Num n"
proof (induction xs arbitrary: s)
  case Nil then show ?case by simp
next
  case (Cons y ys)
  from Cons.prems(1) obtain a b where y: "y = Num a" and b: "sum_list ys = Num b"
    by (cases y; cases "sum_list ys") simp_all
  show ?case using Cons.prems(2) Cons.IH [OF b] y by auto
qed

lemma sum_update:
  "map_of r k = Some a \<Longrightarrow>
   sum_list (map snd (AList.update k b r)) + a = sum_list (map snd r) + (b::jsnum)"
proof (induction r)
  case Nil then show ?case by simp
next
  case (Cons e r)
  obtain k' v' where e: "e = (k', v')" by (cases e)
  show ?case
  proof (cases "k' = k")
    case True
    then show ?thesis using Cons.prems e by (simp add: add.commute add.left_commute)
  next
    case False
    then have "map_of r k = Some a" using Cons.prems e by simp
    from Cons.IH [OF this] show ?thesis using False e by (simp add: add.assoc)
  qed
qed

lemma sum_shift:
  assumes k: "k \<in> fst ` set r" and s: "sum_list (map snd r) = Num s"
  shows "\<exists>x. getNum r k = Num x \<and> sum_list (map snd (AList.update k (Num (x + n)) r)) = Num (s + n)"
proof -
  from k obtain a where a: "map_of r k = Some a"
    by (metis map_of_eq_None_iff not_Some_eq)
  then have "(k, a) \<in> set r" by (rule map_of_SomeD)
  then have "a \<in> set (map snd r)" by force
  with s obtain x where x: "a = Num x" using sum_Num_member by blast
  have g: "getNum r k = Num x" using a x by (simp add: getNum_def)
  have "sum_list (map snd (AList.update k (Num (x + n)) r)) + Num x = Num s + Num (x + n)"
    using sum_update [OF a, of "Num (x + n)"] s x by simp
  then have "sum_list (map snd (AList.update k (Num (x + n)) r)) = Num (s + n)"
    by (cases "sum_list (map snd (AList.update k (Num (x + n)) r))") simp_all
  with g show ?thesis by blast
qed

lemma sum_addAssign:
  "k \<in> fst ` set r \<Longrightarrow> sum_list (map snd r) = Num s \<Longrightarrow>
   sum_list (map snd (addAssign r k n)) = Num (s + n)"
  using sum_shift [of k r s n] by (auto simp: addAssign_def)

lemma sum_subAssign:
  "k \<in> fst ` set r \<Longrightarrow> sum_list (map snd r) = Num s \<Longrightarrow>
   sum_list (map snd (subAssign r k n)) = Num (s - n)"
  using sum_shift [of k r s "- n"] by (auto simp: subAssign_def)

lemma sum_initPoints: "sum_list (map snd (initPoints ps)) = Num 0"
proof -
  have "\<forall>e \<in> set (initPoints ps). snd e = Num 0"
  proof
    fix e assume e: "e \<in> set (initPoints ps)"
    obtain k v where kv: "e = (k, v)" by (cases e)
    have "map_of (initPoints ps) k = Some v"
      using e kv distinct_initPoints by simp
    then show "snd e = Num 0" using kv by (simp add: map_of_initPoints split: if_splits)
  qed
  then have eq: "map snd (initPoints ps) = map (\<lambda>e. Num 0) (initPoints ps)" by simp
  have "sum_list (map (\<lambda>e. Num 0) (initPoints ps)) = Num 0"
    using sum_list_Num [of "\<lambda>e. 0" "initPoints ps"] by simp
  then show ?thesis by (simp only: eq)
qed

section \<open>The loops of the score engine\<close>

lemma Num_plus_assoc: "(x + Num a) + Num b = x + Num (a + b)"
  by (cases x) simp_all

lemma Num_minus_plus: "(x - Num a) + Num b = x + Num (b - a)"
  by (cases x) simp_all

lemma chay_loop:
  "w \<notin> set cs \<Longrightarrow> distinct cs \<Longrightarrow>
   getNum (foldl (chayStep w) r cs) q =
     (if q = w then getNum r w + Num (4 * int (length cs))
      else if q \<in> set cs then getNum r q - Num 4 else getNum r q)"
proof (induction cs arbitrary: r)
  case Nil
  then show ?case by (cases "getNum r w") (simp_all add: zero_jsnum_def)
next
  case (Cons c cs)
  have cw: "c \<noteq> w" and w: "w \<notin> set cs" and d: "distinct cs" and c: "c \<notin> set cs"
    using Cons.prems by auto
  let ?r = "addAssign (subAssign r c 4) w 4"
  have step: "chayStep w r c = ?r" using cw by (simp add: chayStep_def)
  have "getNum (foldl (chayStep w) ?r cs) q =
     (if q = w then getNum ?r w + Num (4 * int (length cs))
      else if q \<in> set cs then getNum ?r q - Num 4 else getNum ?r q)"
    by (rule Cons.IH [OF w d])
  then show ?case
    using cw c by (auto simp: step getNum_addAssign getNum_subAssign Num_plus_assoc)
qed

lemma chay_loop_keys:
  "fst ` set r \<subseteq> fst ` set (foldl (chayStep w) r cs)"
proof (induction cs arbitrary: r)
  case Nil then show ?case by simp
next
  case (Cons c cs)
  have "fst ` set r \<subseteq> fst ` set (chayStep w r c)"
    by (auto simp: chayStep_def keys_addAssign keys_subAssign)
  with Cons.IH [of "chayStep w r c"] show ?case by auto
qed

lemma assign_loop:
  "map_of (foldl (\<lambda>r p. AList.update (p_id p) (F (p_id p)) r) r ps) q =
     (if q \<in> p_id ` set ps then Some (F q) else map_of r q)"
  by (induction ps arbitrary: r) (auto simp: update_conv')

lemma assign_loop_keys:
  "p_id ` set ps \<subseteq> fst ` set r \<Longrightarrow>
   map fst (foldl (\<lambda>r p. AList.update (p_id p) (F (p_id p)) r) r ps) = map fst r"
proof (induction ps arbitrary: r)
  case Nil then show ?case by simp
next
  case (Cons p ps)
  have k: "map fst (AList.update (p_id p) (F (p_id p)) r) = map fst r"
    using Cons.prems by (simp add: update_keys)
  have "p_id ` set ps \<subseteq> fst ` set (AList.update (p_id p) (F (p_id p)) r)"
    using Cons.prems by (auto simp: dom_update)
  from Cons.IH [OF this] show ?case using k by simp
qed


lemma u_tariff_sum:
  "distinct ids \<Longrightarrow>
   sum_list (map (\<lambda>i. if i = w then 15 else - 5) ids)
     = (if w \<in> set ids then 20 else 0) - 5 * int (length ids)"
  by (induction ids) auto

section \<open>The result of a round\<close>

lemma transfers_fold:
  "foldl applyTransfer (pts, ws) ts =
     (foldl movePoints pts (filter (\<lambda>t. \<not> invalidTransfer t) ts),
      ws @ replicate (length (filter invalidTransfer ts)) warn_invalid_transfer)"
  by (induction ts arbitrary: pts ws) (simp_all add: applyTransfer_def replicate_app_Cons_same)

lemma cgp_points:
  "points (computeGamePoints g ps) =
     foldl movePoints (fst (modeScore g ps)) (filter (\<lambda>t. \<not> invalidTransfer t) (anChot g))"
  by (cases "modeScore g ps") (simp add: computeGamePoints_def transfers_fold)

lemma cgp_warnings:
  "warnings (computeGamePoints g ps) =
     snd (modeScore g ps) @ replicate (length (filter invalidTransfer (anChot g))) warn_invalid_transfer"
  by (cases "modeScore g ps") (simp add: computeGamePoints_def transfers_fold)

lemma cgp_total:
  "total (computeGamePoints g ps) = sum_list (map snd (points (computeGamePoints g ps)))"
  by (cases "modeScore g ps") (simp add: computeGamePoints_def transfers_fold total_sum_list)

lemma set_chaySet: "set (chaySet g) = burned g"
  by (simp add: chaySet_def burned_def set_newSet)

lemma length_chaySet: "length (chaySet g) = card (burned g)"
  by (simp add: chaySet_def burned_def length_newSet)

lemma hasChay_burned: "hasChay g \<longleftrightarrow> burned g \<noteq> {}"
  using set_chaySet [of g] by (auto simp: hasChay_def)

lemma ranking_unique:
  "length (newSet (filter (\<lambda>i. i \<noteq> []) [first (placements g), second (placements g), third (placements g), fourth (placements g)])) = 4
     \<longleftrightarrow> rankingComplete g"
  by (auto simp: length_newSet rankingComplete_def card_insert_if split: if_splits)

lemma zeroSum_init: "zeroSum (p_id ` set ps) (initPoints ps)"
  by (simp add: zeroSum_def keys_initPoints sum_initPoints)

lemma validId_mem: "validId ps i \<Longrightarrow> i \<noteq> [] \<Longrightarrow> i \<in> p_id ` set ps"
  by (auto simp: validId_def)

lemma burned_valid: "roundIdsValid g ps \<Longrightarrow> burned g \<subseteq> p_id ` set ps"
  by (auto simp: roundIdsValid_def burned_def list_all_iff validId_def)

lemma getNum_assign_loop:
  "q \<in> p_id ` set ps \<Longrightarrow>
   getNum (foldl (\<lambda>r p. AList.update (p_id p) (F (p_id p)) r) r ps) q = F q"
  using assign_loop [of F r ps q] by (simp add: getNum_def)

lemma zeroSum_scoreRanking:
  assumes "rankingComplete g \<Longrightarrow>
             first (placements g) \<in> p_id ` set ps \<and> second (placements g) \<in> p_id ` set ps
             \<and> third (placements g) \<in> p_id ` set ps \<and> fourth (placements g) \<in> p_id ` set ps"
  shows "zeroSum (p_id ` set ps) (fst (scoreRanking g ps))"
proof (cases "rankingComplete g")
  case False
  then show ?thesis using ranking_unique [of g] by (simp add: scoreRanking_def Let_def zeroSum_init)
next
  case True
  let ?K = "p_id ` set ps"
  let ?pl = "placements g"
  have k: "first ?pl \<in> ?K" "second ?pl \<in> ?K" "third ?pl \<in> ?K" "fourth ?pl \<in> ?K"
    using assms True by auto
  have k0: "fst ` set (initPoints ps) = ?K" by (rule keys_initPoints)
  have s1: "sum_list (map snd (addAssign (initPoints ps) (first ?pl) 6)) = Num (0 + 6)"
    by (rule sum_addAssign) (simp_all add: k0 k sum_initPoints)
  have s2: "sum_list (map snd (subAssign (addAssign (initPoints ps) (first ?pl) 6) (second ?pl) 1)) = Num (0 + 6 - 1)"
    by (rule sum_subAssign [OF _ s1]) (simp add: keys_addAssign k0 k)
  have s3: "sum_list (map snd (subAssign (subAssign (addAssign (initPoints ps) (first ?pl) 6) (second ?pl) 1) (third ?pl) 2)) = Num (0 + 6 - 1 - 2)"
    by (rule sum_subAssign [OF _ s2]) (simp add: keys_addAssign keys_subAssign k0 k)
  have s4: "sum_list (map snd (subAssign (subAssign (subAssign (addAssign (initPoints ps) (first ?pl) 6) (second ?pl) 1) (third ?pl) 2) (fourth ?pl) 3)) = Num (0 + 6 - 1 - 2 - 3)"
    by (rule sum_subAssign [OF _ s3]) (simp add: keys_addAssign keys_subAssign k0 k)
  show ?thesis
    using True ranking_unique [of g] s4 k
    by (auto simp: scoreRanking_def Let_def zeroSum_def keys_addAssign keys_subAssign k0)
qed

lemma ranking_valid:
  "roundIdsValid g ps \<Longrightarrow> rankingComplete g \<Longrightarrow>
   first (placements g) \<in> p_id ` set ps \<and> second (placements g) \<in> p_id ` set ps
   \<and> third (placements g) \<in> p_id ` set ps \<and> fourth (placements g) \<in> p_id ` set ps"
  by (auto simp: roundIdsValid_def rankingComplete_def intro: validId_mem)

subsection \<open>The burned set, the messages and a single transfer\<close>

lemma distinct_chaySet: "distinct (chaySet g)"
  by (simp add: chaySet_def distinct_newSet)

lemma warn_distinct:
  "warn_missing_second \<noteq> warn_missing_third"
  "warn_missing_second \<noteq> warn_invalid_transfer"
  "warn_missing_third \<noteq> warn_invalid_transfer"
  "warn_ranking \<noteq> warn_invalid_transfer"
  by (simp_all add: warn_missing_second_def warn_missing_third_def warn_invalid_transfer_def warn_ranking_def)


section \<open>Self-win\<close>

text \<open>
  Claim C3. In self-win mode (\<^verbatim>\<open>u\<close> true) with a winner W set in slot first, the state
  before the manual transfers (\<^const>\<open>modeScore\<close>) has no warning, has exactly the players'
  ids as keys, and gives +15 to W and -5 to every other player.
\<close>

theorem self_win_tariff:
  assumes "u g" and "first (placements g) \<noteq> []"
  shows "snd (modeScore g ps) = []
     \<and> fst ` set (fst (modeScore g ps)) = p_id ` set ps
     \<and> (\<forall>q \<in> p_id ` set ps.
           getNum (fst (modeScore g ps)) q = Num (if q = first (placements g) then 15 else - 5))"
proof -
  let ?w = "first (placements g)"
  let ?F = "\<lambda>i. Num (if i = ?w then 15 else - 5)"
  let ?r = "foldl (\<lambda>r p. AList.update (p_id p) (?F (p_id p)) r) (initPoints ps) ps"
  have m: "modeScore g ps = (?r, [])"
    using assms by (simp add: modeScore_def scoreU_def)
  have k0: "p_id ` set ps \<subseteq> fst ` set (initPoints ps)" by (simp add: keys_initPoints)
  have "map fst ?r = map fst (initPoints ps)"
    by (rule assign_loop_keys [OF k0])
  then have "set (map fst ?r) = set (map fst (initPoints ps))" by (rule arg_cong)
  then have keys: "fst ` set ?r = p_id ` set ps" by (simp add: keys_initPoints)
  have vals: "\<forall>q \<in> p_id ` set ps. getNum ?r q = ?F q"
  proof
    fix q assume q: "q \<in> p_id ` set ps"
    show "getNum ?r q = ?F q"
      using getNum_assign_loop [OF q, where F = ?F and r = "initPoints ps"] by simp
  qed
  show ?thesis unfolding m using keys vals by simp
qed

theorem self_win_tariff_witness:
  "u (mkGame True ''p3'' [] [] [] [] []) \<and> first (placements (mkGame True ''p3'' [] [] [] [] [])) \<noteq> []
   \<and> fst (modeScore (mkGame True ''p3'' [] [] [] [] []) players4)
       = [(''p1'', Num (- 5)), (''p2'', Num (- 5)), (''p3'', Num 15), (''p4'', Num (- 5))]
   \<and> snd (modeScore (mkGame True ''p3'' [] [] [] [] []) players4) = []
   \<and> fst ` set (fst (modeScore (mkGame True ''p3'' [] [] [] [] []) players4)) = p_id ` set players4"
proof -
  let ?g = "mkGame True ''p3'' [] [] [] [] []"
  have a: "u ?g" by code_simp
  have b: "first (placements ?g) \<noteq> []" by code_simp
  have c: "fst (modeScore ?g players4) = [(''p1'', Num (- 5)), (''p2'', Num (- 5)), (''p3'', Num 15), (''p4'', Num (- 5))]"
    by code_simp
  show ?thesis using a b c self_win_tariff [OF a b, of players4] by blast
qed

section \<open>Burn mode\<close>

text \<open>
  Claim C2. In burn mode (\<^verbatim>\<open>u\<close> false, a non-empty burned set) with a winner set in slot
  first who is a player and is not burned, the delta of every player before the manual
  transfers is \<^const>\<open>chayDelta\<close>: each distinct burned player pays 4 to the winner, the
  second pays 1 if set, not the winner and not burned, and the third pays 2 if set, not the
  winner, not the second and not burned.
\<close>

theorem burn_tariff:
  assumes "\<not> u g" and "burned g \<noteq> {}"
    and "first (placements g) \<noteq> []" and "first (placements g) \<notin> burned g"
    and "first (placements g) \<in> p_id ` set ps" and "q \<in> p_id ` set ps"
  shows "getNum (fst (modeScore g ps)) q = Num (chayDelta g q)"
proof -
  let ?w = "first (placements g)"
  let ?r1 = "foldl (chayStep ?w) (initPoints ps) (chaySet g)"
  have w: "?w \<notin> set (chaySet g)" using assms(4) by (simp add: set_chaySet)
  have g1: "getNum ?r1 x = Num ((if x = ?w then 4 * int (card (burned g)) else 0)
                                  - (if x \<in> burned g then 4 else 0))"
    if "x \<in> p_id ` set ps" for x
    using chay_loop [OF w distinct_chaySet, of "initPoints ps" x] that assms(4,5)
    by (auto simp: set_chaySet length_chaySet getNum_initPoints)
  have gq: "getNum ?r1 q = Num ((if q = ?w then 4 * int (card (burned g)) else 0)
                                  - (if q \<in> burned g then 4 else 0))"
    by (rule g1 [OF assms(6)])
  have gw: "getNum ?r1 ?w = Num (4 * int (card (burned g)))"
    using g1 [OF assms(5)] assms(4) by simp
  have m: "modeScore g ps = scoreChay g ps"
    using assms(1,2) by (simp add: modeScore_def hasChay_burned)
  show ?thesis
    unfolding m using assms(3,4) w gq gw
    by (auto simp: scoreChay_def Let_def getNum_addAssign getNum_subAssign set_chaySet
          chayDelta_def secondPays_def thirdPays_def)
qed

theorem burn_tariff_witness:
  "\<not> u (mkGame False ''p1'' ''p3'' ''p4'' [] [] [mkTransfer ''p2'' ''p1'' 4])
   \<and> burned (mkGame False ''p1'' ''p3'' ''p4'' [] [] [mkTransfer ''p2'' ''p1'' 4]) \<noteq> {}
   \<and> getNum (fst (modeScore (mkGame False ''p1'' ''p3'' ''p4'' [] [] [mkTransfer ''p2'' ''p1'' 4]) players4)) ''p1''
       = Num (chayDelta (mkGame False ''p1'' ''p3'' ''p4'' [] [] [mkTransfer ''p2'' ''p1'' 4]) ''p1'')
   \<and> chayDelta (mkGame False ''p1'' ''p3'' ''p4'' [] [] [mkTransfer ''p2'' ''p1'' 4]) ''p1'' = 7"
proof -
  let ?g = "mkGame False ''p1'' ''p3'' ''p4'' [] [] [mkTransfer ''p2'' ''p1'' 4]"
  have a: "\<not> u ?g" by code_simp
  have b: "burned ?g \<noteq> {}" by code_simp
  have c: "first (placements ?g) \<noteq> []" by code_simp
  have d: "first (placements ?g) \<notin> burned ?g" by code_simp
  have e: "first (placements ?g) \<in> p_id ` set players4" by code_simp
  have f: "''p1'' \<in> p_id ` set players4" by code_simp
  have v: "chayDelta ?g ''p1'' = 7" by code_simp
  show ?thesis using a b v burn_tariff [OF a b c d e f] by simp
qed

section \<open>Ranking mode\<close>

text \<open>
  Claim C4. In ranking mode (\<^verbatim>\<open>u\<close> false, no burn entries): if the four slots are filled
  with four distinct player ids and there are no manual transfers, the deltas are +6 for
  first, -1 for second, -2 for third and -3 for fourth, the total is 0 and there is no
  warning; if the four slots are not filled with four distinct ids, the warning "ranking
  incomplete" is emitted and the mode-specific deltas stay 0.
\<close>

theorem ranking_tariff:
  "(\<not> u g \<and> chay g = [] \<and> rankingComplete g \<and> anChot g = []
      \<and> first (placements g) \<in> p_id ` set ps \<and> second (placements g) \<in> p_id ` set ps
      \<and> third (placements g) \<in> p_id ` set ps \<and> fourth (placements g) \<in> p_id ` set ps
    \<longrightarrow> getNum (points (computeGamePoints g ps)) (first (placements g)) = Num 6
      \<and> getNum (points (computeGamePoints g ps)) (second (placements g)) = Num (- 1)
      \<and> getNum (points (computeGamePoints g ps)) (third (placements g)) = Num (- 2)
      \<and> getNum (points (computeGamePoints g ps)) (fourth (placements g)) = Num (- 3)
      \<and> total (computeGamePoints g ps) = Num 0
      \<and> warnings (computeGamePoints g ps) = [])
   \<and> (\<not> u g \<and> chay g = [] \<and> \<not> rankingComplete g
    \<longrightarrow> warn_ranking \<in> set (warnings (computeGamePoints g ps))
      \<and> snd (modeScore g ps) = [warn_ranking]
      \<and> fst (modeScore g ps) = initPoints ps
      \<and> (\<forall>q \<in> p_id ` set ps. getNum (fst (modeScore g ps)) q = Num 0))"
proof (intro conjI impI)
  assume a: "\<not> u g \<and> chay g = [] \<and> \<not> rankingComplete g"
  then have m: "modeScore g ps = (initPoints ps, [warn_ranking])"
    using ranking_unique [of g] by (simp add: modeScore_def hasChay_def chaySet_def newSet_def scoreRanking_def Let_def)
  show "warn_ranking \<in> set (warnings (computeGamePoints g ps))"
    by (simp add: cgp_warnings m)
  show "snd (modeScore g ps) = [warn_ranking]" by (simp add: m)
  show "fst (modeScore g ps) = initPoints ps" by (simp add: m)
  show "\<forall>q \<in> p_id ` set ps. getNum (fst (modeScore g ps)) q = Num 0"
    by (simp add: m getNum_initPoints)
next
  assume a: "\<not> u g \<and> chay g = [] \<and> rankingComplete g \<and> anChot g = []
      \<and> first (placements g) \<in> p_id ` set ps \<and> second (placements g) \<in> p_id ` set ps
      \<and> third (placements g) \<in> p_id ` set ps \<and> fourth (placements g) \<in> p_id ` set ps"
  let ?pl = "placements g"
  let ?r = "subAssign (subAssign (subAssign (addAssign (initPoints ps) (first ?pl) 6)
              (second ?pl) 1) (third ?pl) 2) (fourth ?pl) 3"
  have m: "modeScore g ps = (?r, [])"
    using a ranking_unique [of g] by (simp add: modeScore_def hasChay_def chaySet_def newSet_def scoreRanking_def Let_def)
  have p: "points (computeGamePoints g ps) = ?r" using a by (simp add: cgp_points m)
  have d: "distinct [first ?pl, second ?pl, third ?pl, fourth ?pl]"
    using a by (simp add: rankingComplete_def)
  have z: "zeroSum (p_id ` set ps) (fst (scoreRanking g ps))"
    by (rule zeroSum_scoreRanking) (use a in simp)
  have sm: "scoreRanking g ps = (?r, [])"
    using a ranking_unique [of g] by (simp add: scoreRanking_def Let_def)
  show "getNum (points (computeGamePoints g ps)) (first ?pl) = Num 6"
    using a d by (auto simp: p getNum_addAssign getNum_subAssign getNum_initPoints)
  show "getNum (points (computeGamePoints g ps)) (second ?pl) = Num (- 1)"
    using a d by (auto simp: p getNum_addAssign getNum_subAssign getNum_initPoints)
  show "getNum (points (computeGamePoints g ps)) (third ?pl) = Num (- 2)"
    using a d by (auto simp: p getNum_addAssign getNum_subAssign getNum_initPoints)
  show "getNum (points (computeGamePoints g ps)) (fourth ?pl) = Num (- 3)"
    using a d by (auto simp: p getNum_addAssign getNum_subAssign getNum_initPoints)
  show "total (computeGamePoints g ps) = Num 0"
    using z by (simp add: cgp_total p sm zeroSum_def)
  show "warnings (computeGamePoints g ps) = []"
    using a by (simp add: cgp_warnings m)
qed

theorem ranking_tariff_witness:
  "points (computeGamePoints (mkGame False ''p1'' ''p2'' ''p3'' ''p4'' [] []) players4)
      = [(''p1'', Num 6), (''p2'', Num (- 1)), (''p3'', Num (- 2)), (''p4'', Num (- 3))]
   \<and> total (computeGamePoints (mkGame False ''p1'' ''p2'' ''p3'' ''p4'' [] []) players4) = Num 0
   \<and> warnings (computeGamePoints (mkGame False ''p1'' ''p2'' ''p3'' ''p4'' [] []) players4) = []
   \<and> \<not> rankingComplete (mkGame False ''p1'' ''p2'' ''p2'' ''p4'' [] [])
   \<and> snd (modeScore (mkGame False ''p1'' ''p2'' ''p2'' ''p4'' [] []) players4) = [warn_ranking]
   \<and> fst (modeScore (mkGame False ''p1'' ''p2'' ''p2'' ''p4'' [] []) players4) = initPoints players4"
proof -
  let ?g = "mkGame False ''p1'' ''p2'' ''p3'' ''p4'' [] []"
  let ?h = "mkGame False ''p1'' ''p2'' ''p2'' ''p4'' [] []"
  have a: "\<not> u ?g \<and> chay ?g = [] \<and> rankingComplete ?g \<and> anChot ?g = []
      \<and> first (placements ?g) \<in> p_id ` set players4 \<and> second (placements ?g) \<in> p_id ` set players4
      \<and> third (placements ?g) \<in> p_id ` set players4 \<and> fourth (placements ?g) \<in> p_id ` set players4"
    by code_simp
  have b: "\<not> u ?h \<and> chay ?h = [] \<and> \<not> rankingComplete ?h" by code_simp
  have c: "points (computeGamePoints ?g players4)
      = [(''p1'', Num 6), (''p2'', Num (- 1)), (''p3'', Num (- 2)), (''p4'', Num (- 3))]" by code_simp
  from ranking_tariff [of ?g players4] a
  have 1: "total (computeGamePoints ?g players4) = Num 0 \<and> warnings (computeGamePoints ?g players4) = []"
    by blast
  from ranking_tariff [of ?h players4] b
  have 2: "snd (modeScore ?h players4) = [warn_ranking] \<and> fst (modeScore ?h players4) = initPoints players4"
    by blast
  show ?thesis using 1 2 b c by blast
qed

section \<open>Completeness warnings of burn mode\<close>

text \<open>
  Claim C5, as stated, asks for at least two players that are neither burned nor the winner
  before "missing second place" is emitted. The program counts the players that are not
  burned, the winner among them: with the winner and one more player not burned and slot
  second empty it warns, where the claim as stated says it does not.
\<close>

theorem missing_second_counterexample:
  "\<not> u (mkGame False ''p1'' [] [] [] [] [mkTransfer ''p2'' ''p1'' 4, mkTransfer ''p3'' ''p1'' 4])
   \<and> hasChay (mkGame False ''p1'' [] [] [] [] [mkTransfer ''p2'' ''p1'' 4, mkTransfer ''p3'' ''p1'' 4])
   \<and> first (placements (mkGame False ''p1'' [] [] [] [] [mkTransfer ''p2'' ''p1'' 4, mkTransfer ''p3'' ''p1'' 4])) = ''p1''
   \<and> ''p1'' \<notin> burned (mkGame False ''p1'' [] [] [] [] [mkTransfer ''p2'' ''p1'' 4, mkTransfer ''p3'' ''p1'' 4])
   \<and> warn_missing_second \<in> set (warnings (computeGamePoints
        (mkGame False ''p1'' [] [] [] [] [mkTransfer ''p2'' ''p1'' 4, mkTransfer ''p3'' ''p1'' 4]) players4))
   \<and> \<not> specMissingSecond
        (mkGame False ''p1'' [] [] [] [] [mkTransfer ''p2'' ''p1'' 4, mkTransfer ''p3'' ''p1'' 4]) players4"
  by code_simp

text \<open>
  Claim C5, amended. In burn mode with a non-burned winner set, "missing second place" is
  emitted exactly when at least 2 players are not burned (the winner counted) and slot
  second is empty, equal to the winner or burned; "missing third place" is emitted exactly
  when at least 3 players are not burned and slot third is empty, equal to the winner, equal
  to second or burned.
\<close>

theorem missing_place_warnings:
  assumes "\<not> u g" and "hasChay g"
    and "first (placements g) \<noteq> []" and "first (placements g) \<notin> burned g"
  shows "(warn_missing_second \<in> set (warnings (computeGamePoints g ps))
            \<longleftrightarrow> notBurnedCount g ps \<ge> 2 \<and> secondMissing g)
       \<and> (warn_missing_third \<in> set (warnings (computeGamePoints g ps))
            \<longleftrightarrow> notBurnedCount g ps \<ge> 3 \<and> thirdMissing g)"
proof -
  have n: "length (nonChay g ps) = notBurnedCount g ps"
    by (simp add: nonChay_def notBurnedCount_def set_chaySet)
  have m: "snd (modeScore g ps) =
      (if notBurnedCount g ps \<ge> 2 \<and> secondMissing g then [warn_missing_second] else [])
      @ (if notBurnedCount g ps \<ge> 3 \<and> thirdMissing g then [warn_missing_third] else [])"
    using assms
    by (simp add: modeScore_def scoreChay_def Let_def n set_chaySet secondMissing_def thirdMissing_def)
  show ?thesis
    using warn_distinct by (auto simp: cgp_warnings m)
qed

theorem missing_place_warnings_witness:
  "(warn_missing_second \<in> set (warnings (computeGamePoints
        (mkGame False ''p1'' [] [] [] [] [mkTransfer ''p2'' ''p1'' 4, mkTransfer ''p3'' ''p1'' 4]) players4))
      \<longleftrightarrow> notBurnedCount (mkGame False ''p1'' [] [] [] [] [mkTransfer ''p2'' ''p1'' 4, mkTransfer ''p3'' ''p1'' 4]) players4 \<ge> 2
          \<and> secondMissing (mkGame False ''p1'' [] [] [] [] [mkTransfer ''p2'' ''p1'' 4, mkTransfer ''p3'' ''p1'' 4]))
   \<and> notBurnedCount (mkGame False ''p1'' [] [] [] [] [mkTransfer ''p2'' ''p1'' 4, mkTransfer ''p3'' ''p1'' 4]) players4 = 2"
proof -
  let ?g = "mkGame False ''p1'' [] [] [] [] [mkTransfer ''p2'' ''p1'' 4, mkTransfer ''p3'' ''p1'' 4]"
  have a: "\<not> u ?g" by code_simp
  have b: "hasChay ?g" by code_simp
  have c: "first (placements ?g) \<noteq> []" by code_simp
  have d: "first (placements ?g) \<notin> burned ?g" by code_simp
  have e: "notBurnedCount ?g players4 = 2" by code_simp
  show ?thesis using e missing_place_warnings [OF a b c d, of players4] by blast
qed

section \<open>Manual transfers\<close>



subsection \<open>Keys and warnings of the mode-specific computation\<close>

lemma keys_chayStep: "fst ` set r \<subseteq> fst ` set (chayStep w r c)"
  by (auto simp: chayStep_def keys_addAssign keys_subAssign)

lemma keys_scoreU: "p_id ` set ps \<subseteq> fst ` set (fst (scoreU g ps))"
proof -
  let ?F = "\<lambda>i. Num (if i = first (placements g) then 15 else - 5)"
  let ?r = "foldl (\<lambda>r p. AList.update (p_id p) (?F (p_id p)) r) (initPoints ps) ps"
  have k0: "p_id ` set ps \<subseteq> fst ` set (initPoints ps)" by (simp add: keys_initPoints)
  have "map fst ?r = map fst (initPoints ps)"
    by (rule assign_loop_keys [OF k0])
  then have "set (map fst ?r) = set (map fst (initPoints ps))" by (rule arg_cong)
  then have "fst ` set ?r = p_id ` set ps" by (simp add: keys_initPoints)
  then show ?thesis by (simp add: scoreU_def Let_def keys_initPoints)
qed

lemma keys_scoreChay: "p_id ` set ps \<subseteq> fst ` set (fst (scoreChay g ps))"
proof -
  have "p_id ` set ps \<subseteq> fst ` set (foldl (chayStep (first (placements g))) (initPoints ps) (chaySet g))"
    using chay_loop_keys [of "initPoints ps" "first (placements g)" "chaySet g"]
    by (simp add: keys_initPoints)
  then show ?thesis
    by (auto simp: scoreChay_def Let_def keys_initPoints keys_addAssign keys_subAssign)
qed

lemma keys_scoreRanking: "p_id ` set ps \<subseteq> fst ` set (fst (scoreRanking g ps))"
  by (auto simp: scoreRanking_def Let_def keys_initPoints keys_addAssign keys_subAssign)

lemma keys_modeScore: "p_id ` set ps \<subseteq> fst ` set (fst (modeScore g ps))"
  by (simp add: modeScore_def keys_scoreU keys_scoreChay keys_scoreRanking)

lemma keys_transfers: "fst ` set r \<subseteq> fst ` set (foldl movePoints r ts)"
proof (induction ts arbitrary: r)
  case Nil then show ?case by simp
next
  case (Cons t ts)
  have "fst ` set r \<subseteq> fst ` set (movePoints r t)"
    by (auto simp: movePoints_def keys_addAssign keys_subAssign)
  with Cons.IH [of "movePoints r t"] show ?case by auto
qed

lemma keys_points: "p_id ` set ps \<subseteq> fst ` set (points (computeGamePoints g ps))"
  by (rule subset_trans [OF keys_modeScore [of ps g]]) (simp add: cgp_points keys_transfers)

lemma mode_warnings:
  "snd (modeScore g ps) \<noteq> [] \<longleftrightarrow>
     (u g \<and> first (placements g) = [])
   \<or> (\<not> u g \<and> burned g \<noteq> {}
        \<and> (first (placements g) = [] \<or> first (placements g) \<in> burned g
             \<or> (notBurnedCount g ps \<ge> 2 \<and> secondMissing g)
             \<or> (notBurnedCount g ps \<ge> 3 \<and> thirdMissing g)))
   \<or> (\<not> u g \<and> burned g = {} \<and> \<not> rankingComplete g)"
proof -
  have n: "length (nonChay g ps) = notBurnedCount g ps"
    by (simp add: nonChay_def notBurnedCount_def set_chaySet)
  have r: "snd (scoreRanking g ps) \<noteq> [] \<longleftrightarrow> \<not> rankingComplete g"
    using ranking_unique [of g] by (simp add: scoreRanking_def Let_def)
  have c: "snd (scoreChay g ps) \<noteq> [] \<longleftrightarrow>
       (first (placements g) = [] \<or> first (placements g) \<in> burned g
             \<or> (notBurnedCount g ps \<ge> 2 \<and> secondMissing g)
             \<or> (notBurnedCount g ps \<ge> 3 \<and> thirdMissing g))"
    by (simp add: scoreChay_def Let_def n set_chaySet secondMissing_def thirdMissing_def)
  have s: "snd (scoreU g ps) \<noteq> [] \<longleftrightarrow> first (placements g) = []"
    by (simp add: scoreU_def Let_def)
  show ?thesis
    by (simp add: modeScore_def hasChay_burned r c s)
qed

section \<open>Warnings on malformed input\<close>

text \<open>
  Claim C9, as stated, fails in its second half: a self-win round whose manual transfer
  names an id that is no player is malformed (an endpoint is neither a player id nor
  empty), yet the result has no warning; its total is \<^verbatim>\<open>NaN\<close>.
\<close>

theorem unflagged_malformed_round:
  "\<not> roundIdsValid (mkGame True ''p1'' [] [] [] [mkTransfer ''zz'' ''p1'' 4] []) players4
   \<and> warnings (computeGamePoints (mkGame True ''p1'' [] [] [] [mkTransfer ''zz'' ''p1'' 4] []) players4) = []
   \<and> total (computeGamePoints (mkGame True ''p1'' [] [] [] [mkTransfer ''zz'' ''p1'' 4] []) players4) = NaN"
  by code_simp

text \<open>
  Claim C9, amended. For every round and player list the engine returns a result that has
  an entry for every player, and the warnings list is non-empty exactly in these cases:
  self-win mode without a winner; burn mode without a winner, with a burned winner, or with
  slot second (given 2 players not burned) or slot third (given 3) missing or invalid;
  ranking mode without four distinct filled slots; a manual transfer with an empty endpoint
  or equal endpoints. No other malformation is reported.
\<close>

theorem warnings_characterised:
  "p_id ` set ps \<subseteq> fst ` set (points (computeGamePoints g ps))
   \<and> (warnings (computeGamePoints g ps) \<noteq> [] \<longleftrightarrow>
        (u g \<and> first (placements g) = [])
      \<or> (\<not> u g \<and> burned g \<noteq> {}
           \<and> (first (placements g) = [] \<or> first (placements g) \<in> burned g
                \<or> (notBurnedCount g ps \<ge> 2 \<and> secondMissing g)
                \<or> (notBurnedCount g ps \<ge> 3 \<and> thirdMissing g)))
      \<or> (\<not> u g \<and> burned g = {} \<and> \<not> rankingComplete g)
      \<or> (\<exists>t \<in> set (anChot g). invalidTransfer t))"
proof -
  have "warnings (computeGamePoints g ps) \<noteq> [] \<longleftrightarrow>
          snd (modeScore g ps) \<noteq> [] \<or> (\<exists>t \<in> set (anChot g). invalidTransfer t)"
    by (simp add: cgp_warnings filter_empty_conv)
  then show ?thesis
    using keys_points [of ps g] mode_warnings [of g ps] by blast
qed

theorem warnings_characterised_witness:
  "warnings (computeGamePoints (mkGame True [] [] [] [] [] []) players4) \<noteq> []
   \<and> warnings (computeGamePoints (mkGame True ''p1'' [] [] [] [mkTransfer ''zz'' ''p1'' 4] []) players4) = []
   \<and> p_id ` set players4 \<subseteq> fst ` set (points (computeGamePoints (mkGame True [] [] [] [] [] []) players4))"
proof -
  let ?g = "mkGame True [] [] [] [] [] []"
  let ?h = "mkGame True ''p1'' [] [] [] [mkTransfer ''zz'' ''p1'' 4] []"
  have a: "u ?g \<and> first (placements ?g) = []" by code_simp
  have b: "u ?h \<and> first (placements ?h) \<noteq> [] \<and> \<not> (\<exists>t \<in> set (anChot ?h). invalidTransfer t)" by code_simp
  from warnings_characterised [of players4 ?g] a
  have 1: "warnings (computeGamePoints ?g players4) \<noteq> []
      \<and> p_id ` set players4 \<subseteq> fst ` set (points (computeGamePoints ?g players4))" by blast
  from warnings_characterised [of players4 ?h] b
  have 2: "warnings (computeGamePoints ?h players4) = []" by blast
  show ?thesis using 1 2 by blast
qed

section \<open>Burn entries are read through their from field only\<close>

text \<open>
  Claim C10. Two rounds that agree on \<^verbatim>\<open>u\<close>, on the ranking slots, on the manual transfers
  and on the \<^verbatim>\<open>from\<close> fields of their burn entries, whatever the \<^verbatim>\<open>to\<close> and
  \<^verbatim>\<open>points\<close> fields of the burn entries are, have the same result (deltas, total and
  warnings) for every player list.
\<close>

theorem chay_reads_from_only:
  assumes "u g' = u g" and "placements g' = placements g" and "anChot g' = anChot g"
    and "map t_from (chay g') = map t_from (chay g)"
  shows "computeGamePoints g' ps = computeGamePoints g ps"
proof -
  have c: "chaySet g' = chaySet g" using assms(4) by (simp add: chaySet_def)
  have "modeScore g' ps = modeScore g ps"
    by (simp add: modeScore_def scoreU_def scoreChay_def scoreRanking_def hasChay_def
          nonChay_def Let_def c assms(1,2))
  then show ?thesis by (simp add: computeGamePoints_def assms(3))
qed

theorem chay_reads_from_only_witness:
  "map t_from (chay (mkGame False ''p1'' ''p3'' ''p4'' [] [] [mkTransfer ''p2'' [] 99]))
     = map t_from (chay (mkGame False ''p1'' ''p3'' ''p4'' [] [] [mkTransfer ''p2'' ''p1'' 4]))
   \<and> computeGamePoints (mkGame False ''p1'' ''p3'' ''p4'' [] [] [mkTransfer ''p2'' [] 99]) players4
     = computeGamePoints (mkGame False ''p1'' ''p3'' ''p4'' [] [] [mkTransfer ''p2'' ''p1'' 4]) players4"
proof -
  let ?g' = "mkGame False ''p1'' ''p3'' ''p4'' [] [] [mkTransfer ''p2'' [] 99]"
  let ?g = "mkGame False ''p1'' ''p3'' ''p4'' [] [] [mkTransfer ''p2'' ''p1'' 4]"
  have a: "u ?g' = u ?g" by code_simp
  have b: "placements ?g' = placements ?g" by code_simp
  have c: "anChot ?g' = anChot ?g" by code_simp
  have d: "map t_from (chay ?g') = map t_from (chay ?g)" by code_simp
  show ?thesis using d chay_reads_from_only [OF a b c d, of players4] by simp
qed

section \<open>Session totals\<close>











section \<open>Session statistics\<close>

lemma countGames_split:
  "foldl (\<lambda>cs g. case cs of (chayCounts, anChotCounts) \<Rightarrow>
              (foldl countFrom chayCounts (chay g), foldl countFrom anChotCounts (anChot g)))
       (a0, b0) gs
     = (foldl countFrom a0 (concat (map chay gs)), foldl countFrom b0 (concat (map anChot gs)))"
  by (induction gs arbitrary: a0 b0) simp_all

lemma countFrom_keys:
  "\<forall>t \<in> set ts. t_from t = [] \<or> t_from t \<in> fst ` set c \<Longrightarrow>
   map fst (foldl countFrom c ts) = map fst c"
proof (induction ts arbitrary: c)
  case Nil then show ?case by simp
next
  case (Cons t ts)
  have k: "map fst (countFrom c t) = map fst c"
    using Cons.prems by (auto simp: countFrom_def update_keys)
  then have "set (map fst (countFrom c t)) = set (map fst c)" by (rule arg_cong)
  then have "\<forall>t' \<in> set ts. t_from t' = [] \<or> t_from t' \<in> fst ` set (countFrom c t)"
    using Cons.prems by simp
  from Cons.IH [OF this] show ?case using k by simp
qed

lemma countFrom_val:
  "k \<noteq> [] \<Longrightarrow>
   (case map_of (foldl countFrom c ts) k of None \<Rightarrow> 0 | Some n \<Rightarrow> n)
     = (case map_of c k of None \<Rightarrow> 0 | Some n \<Rightarrow> n) + fromCount ts k"
proof (induction ts arbitrary: c)
  case Nil then show ?case by (simp add: fromCount_def)
next
  case (Cons t ts)
  have f: "fromCount (t # ts) k = (if t_from t = k then 1 else 0) + fromCount ts k"
    by (simp add: fromCount_def)
  have s: "(case map_of (countFrom c t) k of None \<Rightarrow> 0 | Some n \<Rightarrow> n)
      = (case map_of c k of None \<Rightarrow> 0 | Some n \<Rightarrow> n) + (if t_from t = k then 1 else 0)"
    using Cons.prems by (auto simp: countFrom_def update_conv')
  show ?case
    using Cons.IH [OF Cons.prems, of "countFrom c t"] by (simp add: f s)
qed

lemma alist_ext:
  "distinct (map fst r) \<Longrightarrow> map fst r = map f xs \<Longrightarrow>
   \<forall>x \<in> set xs. map_of r (f x) = Some (h x) \<Longrightarrow> r = map (\<lambda>x. (f x, h x)) xs"
proof (induction xs arbitrary: r)
  case Nil then show ?case by simp
next
  case (Cons x xs)
  from Cons.prems(2) obtain e r' where r: "r = e # r'" by (cases r) auto
  obtain k v where e: "e = (k, v)" by (cases e)
  have k: "k = f x" and m: "map fst r' = map f xs" using Cons.prems(2) r e by auto
  have v: "v = h x" using Cons.prems(3) r e k by simp
  have d: "distinct (map fst r')" and nk: "k \<notin> set (map fst r')" using Cons.prems(1) r e by auto
  have "\<forall>y \<in> set xs. map_of r' (f y) = Some (h y)"
  proof
    fix y assume y: "y \<in> set xs"
    then have "f y \<in> set (map fst r')" using m by simp
    then have "f y \<noteq> k" using nk by auto
    moreover have "map_of r (f y) = Some (h y)" using Cons.prems(3) y by simp
    ultimately show "map_of r' (f y) = Some (h y)" using r e by simp
  qed
  from Cons.IH [OF d m this] show ?case using r e k v by simp
qed

lemma foldl_max: "foldl max a xs = Max (set (a # xs))" for a :: int
proof -
  have "(\<lambda>x s. max s x) = (max :: int \<Rightarrow> int \<Rightarrow> int)" by (intro ext) (rule max.commute)
  then have "foldl max a xs = fold max xs a" by (simp add: foldl_conv_fold)
  then show ?thesis by (simp only: Max.set_eq_fold)
qed

lemma find_by_id:
  "distinct (map p_id ps) \<Longrightarrow> p \<in> set ps \<Longrightarrow> find (\<lambda>p'. p_id p' = p_id p) ps = Some p"
  by (induction ps) (auto simp: image_iff)

lemma counts_of_players:
  assumes d: "distinct (map p_id ps)" and ne: "\<forall>p \<in> set ps. p_id p \<noteq> []"
    and v: "\<forall>t \<in> set ts. validId ps (t_from t)"
  shows "foldl countFrom (fromEntries (map (\<lambda>p. (p_id p, 0)) ps)) ts
           = map (\<lambda>p. (p_id p, fromCount ts (p_id p))) ps"
proof -
  let ?z = "map (\<lambda>p. (p_id p, 0::int)) ps"
  let ?c = "foldl countFrom ?z ts"
  have c0: "fromEntries ?z = ?z"
    by (rule fromEntries_distinct) (simp add: comp_def d)
  have k0: "map fst ?z = map p_id ps" by (simp add: comp_def)
  have "\<forall>t \<in> set ts. t_from t = [] \<or> t_from t \<in> fst ` set ?z"
    using v by (auto simp: validId_def image_iff)
  then have "map fst ?c = map fst ?z" by (rule countFrom_keys)
  then have keys: "map fst ?c = map p_id ps" by (simp only: k0)
  have vals: "\<forall>p \<in> set ps. map_of ?c (p_id p) = Some (fromCount ts (p_id p))"
  proof
    fix p assume p: "p \<in> set ps"
    have "p_id p \<in> set (map fst ?c)" using p keys by simp
    then obtain n where n: "map_of ?c (p_id p) = Some n"
      by (metis list.set_map map_of_eq_None_iff not_Some_eq)
    have z: "map_of ?z (p_id p) = Some 0"
      using p by (intro map_of_is_SomeI) (auto simp: comp_def d)
    have "(case map_of ?c (p_id p) of None \<Rightarrow> 0 | Some n \<Rightarrow> n)
            = (case map_of ?z (p_id p) of None \<Rightarrow> 0 | Some n \<Rightarrow> n) + fromCount ts (p_id p)"
      by (rule countFrom_val) (use ne p in blast)
    then show "map_of ?c (p_id p) = Some (fromCount ts (p_id p))" using n z by simp
  qed
  have dk: "distinct (map fst ?c)" unfolding keys by (rule d)
  have "?c = map (\<lambda>p. (p_id p, fromCount ts (p_id p))) ps"
    by (rule alist_ext [OF dk keys vals])
  then show ?thesis by (simp only: c0)
qed

lemma getTopStat_counts:
  assumes d: "distinct (map p_id ps)" and nn: "\<forall>p \<in> set ps. p_name p \<noteq> []"
  shows "getTopStat ps (map (\<lambda>p. (p_id p, F (p_id p))) ps)
     = (let m = Max (set (0 # map (\<lambda>p. F (p_id p)) ps)) in
        if m = 0 then \<lparr>names = [none_yet], count_top = 0\<rparr>
        else \<lparr>names = map p_name (filter (\<lambda>p. F (p_id p) = m) ps), count_top = m\<rparr>)"
proof -
  let ?c = "map (\<lambda>p. (p_id p, F (p_id p))) ps"
  let ?m = "Max (set (0 # map (\<lambda>p. F (p_id p)) ps))"
  have mx: "foldl max 0 (map snd ?c) = ?m"
    by (simp only: foldl_max) (simp add: comp_def)
  have look: "map_of ?c (p_id p) = Some (F (p_id p))" if "p \<in> set ps" for p
    using that by (intro map_of_is_SomeI) (auto simp: comp_def d)
  have ids: "filter (\<lambda>i. map_of ?c i = Some ?m) (map fst ?c)
               = map p_id (filter (\<lambda>p. F (p_id p) = ?m) ps)"
  proof -
    have "filter (\<lambda>i. map_of ?c i = Some ?m) (map fst ?c)
            = map p_id (filter (\<lambda>p. map_of ?c (p_id p) = Some ?m) ps)"
      by (simp add: filter_map comp_def)
    also have "filter (\<lambda>p. map_of ?c (p_id p) = Some ?m) ps = filter (\<lambda>p. F (p_id p) = ?m) ps"
      by (rule filter_cong [OF refl]) (simp add: look)
    finally show ?thesis .
  qed
  have nm: "filterBoolean (map (\<lambda>i. map_option p_name (find (\<lambda>p. p_id p = i) ps)) (map p_id qs))
              = map p_name qs" if "set qs \<subseteq> set ps" for qs
  proof -
    have e1: "map (\<lambda>i. map_option p_name (find (\<lambda>p. p_id p = i) ps)) (map p_id qs)
            = map (\<lambda>q. Some (p_name q)) qs"
      unfolding map_map
    proof (rule map_cong [OF refl])
      fix q assume "q \<in> set qs"
      then have "q \<in> set ps" using that by blast
      then show "((\<lambda>i. map_option p_name (find (\<lambda>p. p_id p = i) ps)) \<circ> p_id) q = Some (p_name q)"
        by (simp add: find_by_id [OF d])
    qed
    have e2: "filterBoolean (map (\<lambda>q. Some (p_name q)) qs) = map p_name qs"
      using that nn by (induction qs) (auto simp: filterBoolean_def)
    show ?thesis by (simp only: e1 e2)
  qed
  have nm': "filterBoolean (map (\<lambda>i. map_option p_name (find (\<lambda>p. p_id p = i) ps))
                (map p_id (filter (\<lambda>p. F (p_id p) = ?m) ps)))
              = map p_name (filter (\<lambda>p. F (p_id p) = ?m) ps)"
    by (rule nm) simp
  show ?thesis
    unfolding getTopStat_def mx ids nm' Let_def by simp
qed

lemma topStat_of_counts:
  assumes "distinct (map p_id ps)" and "\<forall>p \<in> set ps. p_id p \<noteq> [] \<and> p_name p \<noteq> []"
    and "\<forall>t \<in> set ts. validId ps (t_from t)"
  shows "getTopStat ps (foldl countFrom (fromEntries (map (\<lambda>p. (p_id p, 0)) ps)) ts) = topOf ps ts"
proof -
  have c: "foldl countFrom (fromEntries (map (\<lambda>p. (p_id p, 0)) ps)) ts
           = map (\<lambda>p. (p_id p, fromCount ts (p_id p))) ps"
    by (rule counts_of_players) (use assms in auto)
  show ?thesis
    unfolding c topOf_def
    by (rule getTopStat_counts [where F = "fromCount ts"]) (use assms in auto)
qed

lemma topOf_empty: "topOf ps [] = \<lparr>names = [none_yet], count_top = 0\<rparr>"
proof -
  have "set (0 # map (\<lambda>p. fromCount [] (p_id p)) ps) = {0}"
    by (auto simp: fromCount_def)
  then have "Max (set (0 # map (\<lambda>p. fromCount [] (p_id p)) ps)) = Max {0}" by (rule arg_cong)
  then have "Max (set (0 # map (\<lambda>p. fromCount [] (p_id p)) ps)) = 0" by (simp only: Max_singleton)
  then show ?thesis by (simp add: topOf_def)
qed

lemma funStats_counts:
  "funStats (Some s) =
     \<lparr>mostChay = getTopStat (players s)
         (foldl countFrom (fromEntries (map (\<lambda>p. (p_id p, 0)) (players s))) (concat (map chay (games s)))),
      mostAnChot = getTopStat (players s)
         (foldl countFrom (fromEntries (map (\<lambda>p. (p_id p, 0)) (players s))) (concat (map anChot (games s))))\<rparr>"
  by (simp add: funStats_def countGames_def countGames_split)

text \<open>
  Claim C8. For a session whose players have distinct non-empty ids and non-empty names,
  and whose burn entries and manual transfers name a player or nothing as \<^verbatim>\<open>from\<close>: the
  two statistics are \<^const>\<open>topOf\<close> of all burn entries, and of all manual transfers, of
  all rounds. That is, the count is the largest number of entries that name one player as
  \<^verbatim>\<open>from\<close>, the names are those of every player with that number (as a multiset: the
  order of enumeration is not fixed), and when no round has such an entry the result is
  count 0 with the single label "none yet".
\<close>

theorem top_stats:
  assumes "distinct (map p_id (players s))"
    and "\<forall>p \<in> set (players s). p_id p \<noteq> [] \<and> p_name p \<noteq> []"
    and "\<forall>g \<in> set (games s). \<forall>t \<in> set (chay g @ anChot g). validId (players s) (t_from t)"
  shows "count_top (mostChay (funStats (Some s)))
           = count_top (topOf (players s) (concat (map chay (games s))))
       \<and> mset (names (mostChay (funStats (Some s))))
           = mset (names (topOf (players s) (concat (map chay (games s)))))
       \<and> count_top (mostAnChot (funStats (Some s)))
           = count_top (topOf (players s) (concat (map anChot (games s))))
       \<and> mset (names (mostAnChot (funStats (Some s))))
           = mset (names (topOf (players s) (concat (map anChot (games s)))))
       \<and> ((\<forall>g \<in> set (games s). chay g = [])
            \<longrightarrow> mostChay (funStats (Some s)) = \<lparr>names = [none_yet], count_top = 0\<rparr>)
       \<and> ((\<forall>g \<in> set (games s). anChot g = [])
            \<longrightarrow> mostAnChot (funStats (Some s)) = \<lparr>names = [none_yet], count_top = 0\<rparr>)"
proof -
  have vc: "\<forall>t \<in> set (concat (map chay (games s))). validId (players s) (t_from t)"
    and va: "\<forall>t \<in> set (concat (map anChot (games s))). validId (players s) (t_from t)"
    using assms(3) by auto
  have c: "mostChay (funStats (Some s)) = topOf (players s) (concat (map chay (games s)))"
    using topStat_of_counts [OF assms(1,2) vc] by (simp add: funStats_counts)
  have a: "mostAnChot (funStats (Some s)) = topOf (players s) (concat (map anChot (games s)))"
    using topStat_of_counts [OF assms(1,2) va] by (simp add: funStats_counts)
  have ec: "mostChay (funStats (Some s)) = \<lparr>names = [none_yet], count_top = 0\<rparr>"
    if "\<forall>g \<in> set (games s). chay g = []"
  proof -
    have e: "concat (map chay (games s)) = []" using that by simp
    show ?thesis unfolding c e by (rule topOf_empty)
  qed
  have ea: "mostAnChot (funStats (Some s)) = \<lparr>names = [none_yet], count_top = 0\<rparr>"
    if "\<forall>g \<in> set (games s). anChot g = []"
  proof -
    have e: "concat (map anChot (games s)) = []" using that by simp
    show ?thesis unfolding a e by (rule topOf_empty)
  qed
  show ?thesis
    using ec ea by (simp add: c a)
qed

theorem top_stats_witness:
  "distinct (map p_id (players (mkSession players4
      [mkGame False ''p1'' ''p2'' ''p3'' ''p4'' [] [],
       mkGame False ''p1'' ''p4'' [] [] [mkTransfer ''p3'' ''p4'' 4] [mkTransfer ''p2'' ''p1'' 4, mkTransfer ''p3'' ''p1'' 4]])))
   \<and> count_top (mostChay (funStats (Some (mkSession players4
      [mkGame False ''p1'' ''p2'' ''p3'' ''p4'' [] [],
       mkGame False ''p1'' ''p4'' [] [] [mkTransfer ''p3'' ''p4'' 4] [mkTransfer ''p2'' ''p1'' 4, mkTransfer ''p3'' ''p1'' 4]])))) = 1
   \<and> mset (names (mostChay (funStats (Some (mkSession players4
      [mkGame False ''p1'' ''p2'' ''p3'' ''p4'' [] [],
       mkGame False ''p1'' ''p4'' [] [] [mkTransfer ''p3'' ''p4'' 4] [mkTransfer ''p2'' ''p1'' 4, mkTransfer ''p3'' ''p1'' 4]])))))
       = mset [''Player p2'', ''Player p3'']
   \<and> mostAnChot (funStats (Some (mkSession players4
      [mkGame False ''p1'' ''p2'' ''p3'' ''p4'' [] [],
       mkGame False ''p1'' ''p4'' [] [] [mkTransfer ''p3'' ''p4'' 4] [mkTransfer ''p2'' ''p1'' 4, mkTransfer ''p3'' ''p1'' 4]])))
       = \<lparr>names = [''Player p3''], count_top = 1\<rparr>"
proof -
  let ?s = "mkSession players4
      [mkGame False ''p1'' ''p2'' ''p3'' ''p4'' [] [],
       mkGame False ''p1'' ''p4'' [] [] [mkTransfer ''p3'' ''p4'' 4] [mkTransfer ''p2'' ''p1'' 4, mkTransfer ''p3'' ''p1'' 4]]"
  have a: "distinct (map p_id (players ?s))" by code_simp
  have b: "\<forall>p \<in> set (players ?s). p_id p \<noteq> [] \<and> p_name p \<noteq> []" by code_simp
  have c: "\<forall>g \<in> set (games ?s). \<forall>t \<in> set (chay g @ anChot g). validId (players ?s) (t_from t)"
    by code_simp
  have t1: "topOf (players ?s) (concat (map chay (games ?s)))
              = \<lparr>names = [''Player p2'', ''Player p3''], count_top = 1\<rparr>" by code_simp
  have t2: "mostAnChot (funStats (Some ?s)) = \<lparr>names = [''Player p3''], count_top = 1\<rparr>" by code_simp
  show ?thesis using a t2 top_stats [OF a b c] by (simp add: t1)
qed

section \<open>Doubles that stay exact\<close>

lemma fl_exact: "\<bar>x\<bar> \<le> 2 ^ 53 \<Longrightarrow> fl x = Fin x"
  by (simp add: fl_def)

lemma getDbl_finRecord: "k \<in> set ks \<Longrightarrow> getDbl (finRecord f ks) k = Fin (f k)"
  by (induction ks) (auto simp: getDbl_def finRecord_def)

lemma finRecord_cong: "(\<And>k. k \<in> set ks \<Longrightarrow> f k = h k) \<Longrightarrow> finRecord f ks = finRecord h ks"
  by (simp add: finRecord_def)

lemma update_finRecord:
  "distinct ks \<Longrightarrow> k \<in> set ks \<Longrightarrow>
   AList.update k (Fin v) (finRecord f ks) = finRecord (f(k := v)) ks"
proof (induction ks)
  case Nil then show ?case by simp
next
  case (Cons a ks)
  show ?case
  proof (cases "a = k")
    case True
    then have "k \<notin> set ks" using Cons.prems by simp
    then have "finRecord (f(k := v)) ks = finRecord f ks"
      by (intro finRecord_cong) auto
    then show ?thesis using True by (simp add: finRecord_def)
  next
    case False
    then have "k \<in> set ks" and "distinct ks" using Cons.prems by auto
    from Cons.IH [OF this(2,1)] show ?thesis using False by (simp add: finRecord_def)
  qed
qed

lemma sum_fun_upd:
  "distinct ks \<Longrightarrow> k \<in> set ks \<Longrightarrow>
   sum_list (map (f(k := v)) ks) = sum_list (map f ks) - f k + (v::int)"
proof (induction ks)
  case Nil then show ?case by simp
next
  case (Cons a ks)
  show ?case
  proof (cases "a = k")
    case True
    then have "k \<notin> set ks" using Cons.prems by simp
    then have eq: "map (f(k := v)) ks = map f ks" by (intro map_cong) auto
    show ?thesis unfolding list.map sum_list.Cons eq using True by simp
  next
    case False
    then have "k \<in> set ks" and "distinct ks" using Cons.prems by auto
    from Cons.IH [OF this(2,1)] show ?thesis using False by simp
  qed
qed

lemma finState_add:
  assumes d: "distinct ks" and st: "finState ks r b s" and k: "k \<in> set ks"
    and n: "b + \<bar>n\<bar> \<le> 2 ^ 53"
  shows "finState ks (addAssignD r k (Fin n)) (b + \<bar>n\<bar>) (s + n)"
proof -
  from st obtain f where r: "r = finRecord f ks" and bd: "\<forall>k \<in> set ks. \<bar>f k\<bar> \<le> b"
    and sm: "sum_list (map f ks) = s" by (auto simp: finState_def)
  have fk: "\<bar>f k\<bar> \<le> b" using bd k by blast
  then have "\<bar>f k + n\<bar> \<le> 2 ^ 53" using n by linarith
  then have "dadd (Fin (f k)) (Fin n) = Fin (f k + n)" by (simp add: fl_exact)
  then have "addAssignD r k (Fin n) = finRecord (f(k := f k + n)) ks"
    by (simp add: addAssignD_def r getDbl_finRecord [OF k] update_finRecord [OF d k])
  moreover have "\<forall>j \<in> set ks. \<bar>(f(k := f k + n)) j\<bar> \<le> b + \<bar>n\<bar>"
    using bd fk by (auto intro: order_trans [OF abs_triangle_ineq])
  moreover have "sum_list (map (f(k := f k + n)) ks) = s + n"
    using sum_fun_upd [OF d k, of f "f k + n"] sm by simp
  ultimately show ?thesis unfolding finState_def by blast
qed

lemma finState_sub:
  assumes d: "distinct ks" and st: "finState ks r b s" and k: "k \<in> set ks"
    and n: "b + \<bar>n\<bar> \<le> 2 ^ 53"
  shows "finState ks (subAssignD r k (Fin n)) (b + \<bar>n\<bar>) (s - n)"
proof -
  from st obtain f where r: "r = finRecord f ks" and bd: "\<forall>k \<in> set ks. \<bar>f k\<bar> \<le> b"
    and sm: "sum_list (map f ks) = s" by (auto simp: finState_def)
  have fk: "\<bar>f k\<bar> \<le> b" using bd k by blast
  then have "\<bar>f k - n\<bar> \<le> 2 ^ 53" using n by linarith
  then have "dsub (Fin (f k)) (Fin n) = Fin (f k - n)" by (simp add: dsub_def fl_exact)
  then have "subAssignD r k (Fin n) = finRecord (f(k := f k - n)) ks"
    by (simp add: subAssignD_def r getDbl_finRecord [OF k] update_finRecord [OF d k])
  moreover have "\<forall>j \<in> set ks. \<bar>(f(k := f k - n)) j\<bar> \<le> b + \<bar>n\<bar>"
  proof
    fix j assume j: "j \<in> set ks"
    have "\<bar>f j\<bar> \<le> b" using bd j by blast
    then show "\<bar>(f(k := f k - n)) j\<bar> \<le> b + \<bar>n\<bar>" using fk by (cases "j = k") auto
  qed
  moreover have "sum_list (map (f(k := f k - n)) ks) = s - n"
    using sum_fun_upd [OF d k, of f "f k - n"] sm by simp
  ultimately show ?thesis unfolding finState_def by blast
qed

lemma finState_move:
  assumes d: "distinct ks" and st: "finState ks r b s"
    and a: "a \<in> set ks" and c: "c \<in> set ks" and ac: "a \<noteq> c"
    and n: "b + \<bar>n\<bar> \<le> 2 ^ 53"
  shows "finState ks (addAssignD (subAssignD r a (Fin n)) c (Fin n)) (b + \<bar>n\<bar>) s"
proof -
  from st obtain f where r: "r = finRecord f ks" and bd: "\<forall>k \<in> set ks. \<bar>f k\<bar> \<le> b"
    and sm: "sum_list (map f ks) = s" by (auto simp: finState_def)
  have fa: "\<bar>f a\<bar> \<le> b" and fc: "\<bar>f c\<bar> \<le> b" using bd a c by blast+
  let ?f1 = "f(a := f a - n)"
  let ?f2 = "?f1(c := f c + n)"
  have "\<bar>f a - n\<bar> \<le> 2 ^ 53" using fa n by linarith
  then have "dsub (Fin (f a)) (Fin n) = Fin (f a - n)" by (simp add: dsub_def fl_exact)
  then have r1: "subAssignD r a (Fin n) = finRecord ?f1 ks"
    by (simp add: subAssignD_def r getDbl_finRecord [OF a] update_finRecord [OF d a])
  have "\<bar>f c + n\<bar> \<le> 2 ^ 53" using fc n by linarith
  then have "dadd (Fin (?f1 c)) (Fin n) = Fin (f c + n)" using ac by (simp add: fl_exact)
  then have r2: "addAssignD (finRecord ?f1 ks) c (Fin n) = finRecord ?f2 ks"
    by (simp add: addAssignD_def getDbl_finRecord [OF c] update_finRecord [OF d c])
  have bd2: "\<forall>j \<in> set ks. \<bar>?f2 j\<bar> \<le> b + \<bar>n\<bar>"
  proof
    fix j assume j: "j \<in> set ks"
    have "\<bar>f j\<bar> \<le> b" using bd j by blast
    then show "\<bar>?f2 j\<bar> \<le> b + \<bar>n\<bar>" using fa fc by auto
  qed
  have "sum_list (map ?f1 ks) = s - n"
    using sum_fun_upd [OF d a, of f "f a - n"] sm by simp
  then have sm2: "sum_list (map ?f2 ks) = s"
    using sum_fun_upd [OF d c, of ?f1 "f c + n"] ac by simp
  show ?thesis unfolding finState_def r1 r2 using bd2 sm2 by blast
qed

lemma finState_mono:
  assumes "finState ks r b s" and "b \<le> b'"
  shows "finState ks r b' s"
proof -
  from assms(1) obtain f where r: "r = finRecord f ks" and bd: "\<forall>k \<in> set ks. \<bar>f k\<bar> \<le> b"
    and sm: "sum_list (map f ks) = s" by (auto simp: finState_def)
  have "\<forall>k \<in> set ks. \<bar>f k\<bar> \<le> b'" using bd assms(2) by auto
  with r sm show ?thesis unfolding finState_def by blast
qed

lemma finState_init:
  "distinct (map p_id ps) \<Longrightarrow> finState (map p_id ps) (initPointsD ps) 0 0"
proof -
  assume d: "distinct (map p_id ps)"
  have "initPointsD ps = map (\<lambda>p. (p_id p, Fin 0)) ps"
    unfolding initPointsD_def by (rule fromEntries_distinct) (simp add: comp_def d)
  then have "initPointsD ps = finRecord (\<lambda>_. 0) (map p_id ps)"
    by (simp add: finRecord_def comp_def)
  then show ?thesis unfolding finState_def by (intro exI [of _ "\<lambda>_. 0"]) (simp add: comp_def)
qed

lemma total_finRecord:
  "\<forall>k \<in> set ks. \<bar>f k\<bar> \<le> b \<Longrightarrow> \<bar>a\<bar> + int (length ks) * b \<le> 2 ^ 53 \<Longrightarrow>
   foldl dadd (Fin a) (map snd (finRecord f ks)) = Fin (a + sum_list (map f ks))"
proof (induction ks arbitrary: a)
  case Nil then show ?case by (simp add: finRecord_def)
next
  case (Cons k ks)
  have b0: "0 \<le> b" using Cons.prems(1) by (meson abs_ge_zero list.set_intros(1) order_trans)
  have fk: "\<bar>f k\<bar> \<le> b" using Cons.prems(1) by simp
  have len: "\<bar>a\<bar> + b + int (length ks) * b \<le> 2 ^ 53"
    using Cons.prems(2) by (simp add: algebra_simps)
  have "0 \<le> int (length ks) * b" using b0 by simp
  then have "\<bar>a + f k\<bar> \<le> 2 ^ 53" using fk len by linarith
  then have step: "dadd (Fin a) (Fin (f k)) = Fin (a + f k)" by (simp add: fl_exact)
  have "\<bar>a + f k\<bar> + int (length ks) * b \<le> 2 ^ 53" using fk len by linarith
  from Cons.IH [OF _ this] Cons.prems(1)
  have "foldl dadd (Fin (a + f k)) (map snd (finRecord f ks)) = Fin (a + f k + sum_list (map f ks))"
    by simp
  then show ?case using step by (simp add: finRecord_def add.assoc)
qed

subsection \<open>The engine on doubles, while the numbers stay exact\<close>

lemma transfers_fold_D:
  "foldl applyTransferD (pts, ws) ts =
     (foldl movePointsD pts (filter (\<lambda>t. \<not> invalidTransfer t) ts),
      ws @ replicate (length (filter invalidTransfer ts)) warn_invalid_transfer)"
  by (induction ts arbitrary: pts ws) (simp_all add: applyTransferD_def replicate_app_Cons_same)

lemma cgpD_points:
  "points_d (computeGamePointsD g ps) =
     foldl movePointsD (fst (modeScoreD g ps)) (filter (\<lambda>t. \<not> invalidTransfer t) (anChot g))"
  by (cases "modeScoreD g ps") (simp add: computeGamePointsD_def transfers_fold_D)

lemma cgpD_warnings:
  "warnings_d (computeGamePointsD g ps) =
     snd (modeScoreD g ps) @ replicate (length (filter invalidTransfer (anChot g))) warn_invalid_transfer"
  by (cases "modeScoreD g ps") (simp add: computeGamePointsD_def transfers_fold_D)

lemma cgpD_total:
  "total_d (computeGamePointsD g ps) = foldl dadd (Fin 0) (map snd (points_d (computeGamePointsD g ps)))"
  by (cases "modeScoreD g ps") (simp add: computeGamePointsD_def transfers_fold_D)

lemma assign_finRecord:
  "distinct ks \<Longrightarrow> p_id ` set qs \<subseteq> set ks \<Longrightarrow>
   foldl (\<lambda>r p. AList.update (p_id p) (Fin (F (p_id p))) r) (finRecord f ks) qs
     = finRecord (\<lambda>k. if k \<in> p_id ` set qs then F k else f k) ks"
proof (induction qs arbitrary: f)
  case Nil then show ?case by simp
next
  case (Cons q qs)
  have q: "p_id q \<in> set ks" and sub: "p_id ` set qs \<subseteq> set ks" using Cons.prems(2) by auto
  have u: "AList.update (p_id q) (Fin (F (p_id q))) (finRecord f ks)
             = finRecord (f(p_id q := F (p_id q))) ks"
    by (rule update_finRecord [OF Cons.prems(1) q])
  have "foldl (\<lambda>r p. AList.update (p_id p) (Fin (F (p_id p))) r)
          (finRecord (f(p_id q := F (p_id q))) ks) qs
        = finRecord (\<lambda>k. if k \<in> p_id ` set qs then F k else (f(p_id q := F (p_id q))) k) ks"
    by (rule Cons.IH [OF Cons.prems(1) sub])
  also have "\<dots> = finRecord (\<lambda>k. if k \<in> p_id ` set (q # qs) then F k else f k) ks"
    by (rule finRecord_cong) auto
  finally show ?case by (simp add: u)
qed

lemma finState_scoreUD:
  assumes "fourPlayers ps" "roundIdsValid g ps"
  shows "finState (map p_id ps) (fst (scoreUD g ps)) 19 0"
proof -
  have d: "distinct (map p_id ps)" and l: "length ps = 4"
    using assms(1) by (auto simp: fourPlayers_def)
  show ?thesis
  proof (cases "first (placements g) = []")
    case True
    then show ?thesis
      using finState_mono [OF finState_init [OF d], of 19] by (simp add: scoreUD_def)
  next
    case False
    let ?w = "first (placements g)"
    let ?F = "\<lambda>i. if i = ?w then 15 else - 5 :: int"
    let ?r = "foldl (\<lambda>r p. AList.update (p_id p) (Fin (?F (p_id p))) r) (initPointsD ps) ps"
    have w: "?w \<in> set (map p_id ps)"
      using assms(2) False by (auto simp: roundIdsValid_def validId_def)
    have i: "initPointsD ps = finRecord (\<lambda>_. 0) (map p_id ps)"
      unfolding initPointsD_def finRecord_def
      using fromEntries_distinct [of "map (\<lambda>p. (p_id p, Fin 0)) ps"] d by (simp add: comp_def)
    have "?r = finRecord (\<lambda>k. if k \<in> p_id ` set ps then ?F k else 0) (map p_id ps)"
      unfolding i by (rule assign_finRecord [OF d]) simp
    also have "\<dots> = finRecord ?F (map p_id ps)"
      by (rule finRecord_cong) auto
    finally have r: "?r = finRecord ?F (map p_id ps)" .
    have s: "sum_list (map ?F (map p_id ps)) = 0"
      using u_tariff_sum [OF d, of ?w] w l by simp
    have b: "\<forall>k \<in> set (map p_id ps). \<bar>?F k\<bar> \<le> 19" by simp
    have "finState (map p_id ps) ?r 19 0"
      unfolding finState_def using r s b by blast
    moreover have "fst (scoreUD g ps) = ?r" using False by (simp add: scoreUD_def Let_def)
    ultimately show ?thesis by simp
  qed
qed

lemma finState_chay_loop:
  "distinct ks \<Longrightarrow> finState ks r b s \<Longrightarrow> set cs \<subseteq> set ks \<Longrightarrow> w \<in> set ks \<Longrightarrow>
   w \<notin> set cs \<Longrightarrow> b + 4 * int (length cs) \<le> 2 ^ 53 \<Longrightarrow>
   finState ks (foldl (chayStepD w) r cs) (b + 4 * int (length cs)) s"
proof (induction cs arbitrary: r b)
  case Nil then show ?case by simp
next
  case (Cons c cs)
  have c: "c \<in> set ks" and cw: "c \<noteq> w" using Cons.prems by auto
  have n: "b + \<bar>4\<bar> \<le> (2::int) ^ 53" using Cons.prems(6) by simp
  have m: "finState ks (addAssignD (subAssignD r c (Fin 4)) w (Fin 4)) (b + \<bar>4\<bar>) s"
    by (rule finState_move [OF Cons.prems(1,2) c Cons.prems(4) cw n])
  have st: "finState ks (chayStepD w r c) (b + 4) s"
    using m cw by (simp add: chayStepD_def)
  have "finState ks (foldl (chayStepD w) (chayStepD w r c) cs) (b + 4 + 4 * int (length cs)) s"
    by (rule Cons.IH [OF Cons.prems(1) st]) (use Cons.prems in auto)
  then show ?case by (simp add: algebra_simps)
qed

lemma length_le_of_subset:
  "distinct cs \<Longrightarrow> set cs \<subseteq> set ks \<Longrightarrow> length cs \<le> length ks"
  by (metis card_length card_mono distinct_card List.finite_set order_trans)

lemma finState_scoreChayD:
  assumes "fourPlayers ps" "roundIdsValid g ps"
  shows "finState (map p_id ps) (fst (scoreChayD g ps)) 19 0"
proof -
  let ?ks = "map p_id ps"
  let ?w = "first (placements g)"
  have d: "distinct ?ks" and l: "length ps = 4"
    using assms(1) by (auto simp: fourPlayers_def)
  have z: "finState ?ks (initPointsD ps) 19 0"
    using finState_mono [OF finState_init [OF d], of 19] by simp
  show ?thesis
  proof (cases "?w = [] \<or> ?w \<in> set (chaySet g)")
    case True
    then show ?thesis using z by (auto simp: scoreChayD_def Let_def)
  next
    case False
    have w: "?w \<in> set ?ks"
      using assms(2) False validId_mem [of ps ?w] by (auto simp: roundIdsValid_def)
    have cs: "set (chaySet g) \<subseteq> set ?ks"
      using burned_valid [OF assms(2)] by (simp add: set_chaySet)
    have "length (chaySet g) \<le> length ?ks"
      by (rule length_le_of_subset [OF distinct_chaySet cs])
    then have len: "length (chaySet g) \<le> 4" using l by simp
    have v2: "second (placements g) \<noteq> [] \<Longrightarrow> second (placements g) \<in> set ?ks"
      and v3: "third (placements g) \<noteq> [] \<Longrightarrow> third (placements g) \<in> set ?ks"
      using assms(2) validId_mem [of ps] by (auto simp: roundIdsValid_def)
    let ?r1 = "foldl (chayStepD ?w) (initPointsD ps) (chaySet g)"
    have "finState ?ks ?r1 (0 + 4 * int (length (chaySet g))) 0"
      by (rule finState_chay_loop [OF d finState_init [OF d] cs w]) (use False len in auto)
    then have s1: "finState ?ks ?r1 16 0"
      by (rule finState_mono) (use len in simp)
    let ?r2 = "if second (placements g) \<noteq> [] \<and> second (placements g) \<notin> set (chaySet g)
                  \<and> second (placements g) \<noteq> ?w
               then addAssignD (subAssignD ?r1 (second (placements g)) (Fin 1)) ?w (Fin 1) else ?r1"
    have s2: "finState ?ks ?r2 17 0"
    proof (cases "second (placements g) \<noteq> [] \<and> second (placements g) \<notin> set (chaySet g)
                  \<and> second (placements g) \<noteq> ?w")
      case True
      have "finState ?ks (addAssignD (subAssignD ?r1 (second (placements g)) (Fin 1)) ?w (Fin 1)) (16 + \<bar>1\<bar>) 0"
        by (rule finState_move [OF d s1 _ w]) (use True v2 in auto)
      then show ?thesis using True by simp
    next
      case False
      then show ?thesis using finState_mono [OF s1, of 17] by auto
    qed
    let ?r3 = "if third (placements g) \<noteq> [] \<and> third (placements g) \<notin> set (chaySet g)
                  \<and> third (placements g) \<noteq> ?w \<and> third (placements g) \<noteq> second (placements g)
               then addAssignD (subAssignD ?r2 (third (placements g)) (Fin 2)) ?w (Fin 2) else ?r2"
    have s3: "finState ?ks ?r3 19 0"
    proof (cases "third (placements g) \<noteq> [] \<and> third (placements g) \<notin> set (chaySet g)
                  \<and> third (placements g) \<noteq> ?w \<and> third (placements g) \<noteq> second (placements g)")
      case True
      have "finState ?ks (addAssignD (subAssignD ?r2 (third (placements g)) (Fin 2)) ?w (Fin 2)) (17 + \<bar>2\<bar>) 0"
        by (rule finState_move [OF d s2 _ w]) (use True v3 in auto)
      then show ?thesis using True by simp
    next
      case False
      then show ?thesis using finState_mono [OF s2, of 19] by auto
    qed
    have "fst (scoreChayD g ps) = ?r3"
      using False by (simp add: scoreChayD_def Let_def)
    then show ?thesis using s3 by simp
  qed
qed

lemma finState_scoreRankingD:
  assumes "fourPlayers ps" "roundIdsValid g ps"
  shows "finState (map p_id ps) (fst (scoreRankingD g ps)) 19 0"
proof -
  let ?ks = "map p_id ps"
  let ?pl = "placements g"
  have d: "distinct ?ks" using assms(1) by (auto simp: fourPlayers_def)
  have z: "finState ?ks (initPointsD ps) 19 0"
    using finState_mono [OF finState_init [OF d], of 19] by simp
  show ?thesis
  proof (cases "rankingComplete g")
    case False
    then show ?thesis using ranking_unique [of g] z by (simp add: scoreRankingD_def Let_def)
  next
    case True
    have k: "first ?pl \<in> set ?ks" "second ?pl \<in> set ?ks" "third ?pl \<in> set ?ks" "fourth ?pl \<in> set ?ks"
      using ranking_valid [OF assms(2) True] by auto
    have s1: "finState ?ks (addAssignD (initPointsD ps) (first ?pl) (Fin 6)) (0 + \<bar>6\<bar>) (0 + 6)"
      by (rule finState_add [OF d finState_init [OF d] k(1)]) simp
    have s2: "finState ?ks (subAssignD (addAssignD (initPointsD ps) (first ?pl) (Fin 6)) (second ?pl) (Fin 1))
                (0 + \<bar>6\<bar> + \<bar>1\<bar>) (0 + 6 - 1)"
      by (rule finState_sub [OF d s1 k(2)]) simp
    have s3: "finState ?ks (subAssignD (subAssignD (addAssignD (initPointsD ps) (first ?pl) (Fin 6)) (second ?pl) (Fin 1)) (third ?pl) (Fin 2))
                (0 + \<bar>6\<bar> + \<bar>1\<bar> + \<bar>2\<bar>) (0 + 6 - 1 - 2)"
      by (rule finState_sub [OF d s2 k(3)]) simp
    have s4: "finState ?ks (subAssignD (subAssignD (subAssignD (addAssignD (initPointsD ps) (first ?pl) (Fin 6)) (second ?pl) (Fin 1)) (third ?pl) (Fin 2)) (fourth ?pl) (Fin 3))
                (0 + \<bar>6\<bar> + \<bar>1\<bar> + \<bar>2\<bar> + \<bar>3\<bar>) (0 + 6 - 1 - 2 - 3)"
      by (rule finState_sub [OF d s3 k(4)]) simp
    have "finState ?ks (subAssignD (subAssignD (subAssignD (addAssignD (initPointsD ps) (first ?pl) (Fin 6)) (second ?pl) (Fin 1)) (third ?pl) (Fin 2)) (fourth ?pl) (Fin 3)) 19 0"
      using finState_mono [OF s4, of 19] by simp
    then show ?thesis using True ranking_unique [of g] by (simp add: scoreRankingD_def Let_def)
  qed
qed

lemma finState_modeScoreD:
  "fourPlayers ps \<Longrightarrow> roundIdsValid g ps \<Longrightarrow> finState (map p_id ps) (fst (modeScoreD g ps)) 19 0"
  by (simp add: modeScoreD_def finState_scoreUD finState_scoreChayD finState_scoreRankingD)

lemma finState_transfers:
  "distinct ks \<Longrightarrow> finState ks r b 0 \<Longrightarrow> 0 \<le> b \<Longrightarrow>
   \<forall>t \<in> set ts. t_from t \<in> set ks \<and> t_to t \<in> set ks \<and> t_from t \<noteq> t_to t \<Longrightarrow>
   b + sum_list (map (\<lambda>t. \<bar>t_points t\<bar>) ts) \<le> 2 ^ 53 \<Longrightarrow>
   finState ks (foldl movePointsD r ts) (b + sum_list (map (\<lambda>t. \<bar>t_points t\<bar>) ts)) 0"
proof (induction ts arbitrary: r b)
  case Nil then show ?case by simp
next
  case (Cons t ts)
  let ?n = "t_points t"
  have rest: "0 \<le> sum_list (map (\<lambda>t. \<bar>t_points t\<bar>) ts)"
    by (rule sum_list_nonneg) auto
  have n: "b + \<bar>?n\<bar> \<le> 2 ^ 53" using Cons.prems(5) rest by simp
  then have "\<bar>?n\<bar> \<le> 2 ^ 53" using Cons.prems(3) by linarith
  then have f: "fl ?n = Fin ?n" by (rule fl_exact)
  have st: "finState ks (movePointsD r t) (b + \<bar>?n\<bar>) 0"
    unfolding movePointsD_def f
    by (rule finState_move [OF Cons.prems(1,2) _ _ _ n]) (use Cons.prems(4) in auto)
  have "finState ks (foldl movePointsD (movePointsD r t) ts)
          (b + \<bar>?n\<bar> + sum_list (map (\<lambda>t. \<bar>t_points t\<bar>) ts)) 0"
    by (rule Cons.IH [OF Cons.prems(1) st]) (use Cons.prems in auto)
  then show ?case by (simp add: add.assoc)
qed

lemma filter_volume:
  "sum_list (map (\<lambda>t. \<bar>t_points t\<bar>) (filter P ts)) \<le> sum_list (map (\<lambda>t. \<bar>t_points t\<bar>) ts)"
  by (induction ts) auto

lemma total_finState:
  assumes "finState ks r b s" and "int (length ks) * b \<le> 2 ^ 53"
  shows "foldl dadd (Fin 0) (map snd r) = Fin s"
proof -
  from assms(1) obtain f where r: "r = finRecord f ks" and bd: "\<forall>k \<in> set ks. \<bar>f k\<bar> \<le> b"
    and sm: "sum_list (map f ks) = s" by (auto simp: finState_def)
  have "foldl dadd (Fin 0) (map snd (finRecord f ks)) = Fin (0 + sum_list (map f ks))"
    by (rule total_finRecord [OF bd]) (use assms(2) in simp)
  then show ?thesis using r sm by simp
qed

section \<open>Zero-sum\<close>

text \<open>
  Claim C1, as stated, fails once an amount is large enough for doubles to round. With the
  complete ranking p1 .. p4 and one manual transfer of \<open>2^53\<close> from p2 to p1 every
  hypothesis of the claim holds and there is no warning; the delta of p2 is
  \<open>-1 - 2^53\<close> rounded to \<open>-2^53\<close>, that of p1 is \<open>2^53 + 6\<close>, and the total is 1.
\<close>

theorem zero_sum_rounding_counterexample:
  "fourPlayers players4
   \<and> roundIdsValid (mkGame False ''p1'' ''p2'' ''p3'' ''p4'' [mkTransfer ''p2'' ''p1'' (2 ^ 53)] []) players4
   \<and> warnings_d (computeGamePointsD (mkGame False ''p1'' ''p2'' ''p3'' ''p4'' [mkTransfer ''p2'' ''p1'' (2 ^ 53)] []) players4) = []
   \<and> points_d (computeGamePointsD (mkGame False ''p1'' ''p2'' ''p3'' ''p4'' [mkTransfer ''p2'' ''p1'' (2 ^ 53)] []) players4)
       = [(''p1'', Fin (2 ^ 53 + 6)), (''p2'', Fin (- (2 ^ 53))), (''p3'', Fin (- 2)), (''p4'', Fin (- 3))]
   \<and> total_d (computeGamePointsD (mkGame False ''p1'' ''p2'' ''p3'' ''p4'' [mkTransfer ''p2'' ''p1'' (2 ^ 53)] []) players4) = Fin 1"
  by code_simp

text \<open>
  Claim C1, amended. For a list of four players with distinct ids and a round whose ranking
  slots and transfer endpoints (of burn entries and of manual transfers) are valid player
  ids or empty, and whose manual transfers have absolute amounts that add up to at most
  \<open>2^50\<close> (then every number the engine computes is an integer of magnitude below
  \<open>2^53\<close>, which a double holds exactly): if \<^verbatim>\<open>computeGamePoints\<close> returns no warning,
  the returned total, which is the sum of all per-player deltas, is 0.
\<close>

theorem zero_sum_doubles:
  assumes "fourPlayers ps" and "roundIdsValid g ps"
    and "warnings_d (computeGamePointsD g ps) = []"
    and "manualVolume g \<le> 2 ^ 50"
  shows "total_d (computeGamePointsD g ps) = Fin 0"
proof -
  let ?ks = "map p_id ps"
  let ?ts = "filter (\<lambda>t. \<not> invalidTransfer t) (anChot g)"
  have d: "distinct ?ks" and l: "length ps = 4"
    using assms(1) by (auto simp: fourPlayers_def)
  have vol: "sum_list (map (\<lambda>t. \<bar>t_points t\<bar>) ?ts) \<le> sum_list (map (\<lambda>t. \<bar>t_points t\<bar>) (anChot g))"
    by (rule filter_volume)
  have valid: "\<forall>t \<in> set ?ts. t_from t \<in> set ?ks \<and> t_to t \<in> set ?ks \<and> t_from t \<noteq> t_to t"
    using assms(2) by (auto simp: roundIdsValid_def list_all_iff invalidTransfer_def validId_def)
  let ?S = "sum_list (map (\<lambda>t. \<bar>t_points t\<bar>) ?ts)"
  have S: "?S \<le> 2 ^ 50" using vol assms(4) by (simp add: manualVolume_def)
  have S0: "0 \<le> ?S" by (rule sum_list_nonneg) auto
  have st: "finState ?ks (points_d (computeGamePointsD g ps)) (19 + ?S) 0"
    unfolding cgpD_points
    by (rule finState_transfers [OF d finState_modeScoreD [OF assms(1,2)] _ valid]) (use S in simp_all)
  have "int (length ?ks) * (19 + ?S) \<le> 2 ^ 53" using l S by simp
  from total_finState [OF st this] show ?thesis by (simp add: cgpD_total)
qed

theorem zero_sum_doubles_witness:
  "fourPlayers players4
   \<and> roundIdsValid (mkGame False ''p1'' ''p3'' ''p4'' [] [mkTransfer ''p4'' ''p3'' 4] [mkTransfer ''p2'' ''p1'' 4]) players4
   \<and> warnings_d (computeGamePointsD (mkGame False ''p1'' ''p3'' ''p4'' [] [mkTransfer ''p4'' ''p3'' 4] [mkTransfer ''p2'' ''p1'' 4]) players4) = []
   \<and> manualVolume (mkGame False ''p1'' ''p3'' ''p4'' [] [mkTransfer ''p4'' ''p3'' 4] [mkTransfer ''p2'' ''p1'' 4]) = 4
   \<and> points_d (computeGamePointsD (mkGame False ''p1'' ''p3'' ''p4'' [] [mkTransfer ''p4'' ''p3'' 4] [mkTransfer ''p2'' ''p1'' 4]) players4)
       = [(''p1'', Fin 7), (''p2'', Fin (- 4)), (''p3'', Fin 3), (''p4'', Fin (- 6))]
   \<and> total_d (computeGamePointsD (mkGame False ''p1'' ''p3'' ''p4'' [] [mkTransfer ''p4'' ''p3'' 4] [mkTransfer ''p2'' ''p1'' 4]) players4) = Fin 0"
proof -
  let ?g = "mkGame False ''p1'' ''p3'' ''p4'' [] [mkTransfer ''p4'' ''p3'' 4] [mkTransfer ''p2'' ''p1'' 4]"
  have a: "fourPlayers players4" by code_simp
  have b: "roundIdsValid ?g players4" by code_simp
  have c: "warnings_d (computeGamePointsD ?g players4) = []" by code_simp
  have v: "manualVolume ?g = 4" by code_simp
  have e: "manualVolume ?g \<le> 2 ^ 50" unfolding v by simp
  have p: "points_d (computeGamePointsD ?g players4)
       = [(''p1'', Fin 7), (''p2'', Fin (- 4)), (''p3'', Fin 3), (''p4'', Fin (- 6))]" by code_simp
  show ?thesis using a b c v p zero_sum_doubles [OF a b c e] by simp
qed

end
